theory Spec2Isabelle
  imports Main "HOL-Library.Sublist"
begin

section \<open>lispread: a generic Lisp reader and its test host\<close>

text \<open>
  The reader of \<^verbatim>\<open>lispread.c\<close> is a C function body whose operations on values are
  macros of the including file. The program verified here is the reader together with
  the host of the repository's test file (\<^verbatim>\<open>test_read\<close>): values are \<^verbatim>\<open>void *\<close>,
  \<^verbatim>\<open>EQ\<close> is pointer equality, the input is a \<^verbatim>\<open>FILE *\<close> read with \<^verbatim>\<open>fgetc\<close>
  and \<^verbatim>\<open>ungetc\<close>, and \<^verbatim>\<open>ERROR\<close> prints its message and aborts.

  What the embedding fixes beyond the text of the source:
  \<^item> \<^verbatim>\<open>int\<close> has 32 bits and \<^verbatim>\<open>long\<close> 64; conversions and additions that leave the
    range of \<^verbatim>\<open>int\<close> wrap around;
  \<^item> the character predicates of \<^verbatim>\<open>ctype.h\<close> are those of the C locale, and
    \<^verbatim>\<open>strtol\<close> is that of ISO C99 to C17;
  \<^item> the diagnostic output of the host (\<^verbatim>\<open>printf\<close>) and its table of allocations
    are left out; the table of symbols is a list without the bound of 1024 entries;
  \<^item> \<^verbatim>\<open>malloc\<close> is that of the GNU C library on LP64, serving the requests from the
    top of the heap: a block has 24, 40, 56, ... bytes, the least of them that holds the
    request, and the 8 bytes behind it are the size field of the block that follows;
  \<^item> a pointer into the heap is never equal to a small integer cast to a pointer.
\<close>

subsection \<open>Values\<close>

text \<open>
  A \<^verbatim>\<open>VALUE\<close> is a \<^verbatim>\<open>void *\<close>. The host makes four kinds of them: an \<^verbatim>\<open>int\<close> cast
  to a pointer (the constants, the characters and the numbers), the address of a
  \<^verbatim>\<open>struct pair\<close>, the address of the bytes of a string, and the address of the name
  of a symbol. Blocks are numbered in the order of their allocation, each kind on its
  own; the name of a symbol is numbered by its index in \<^verbatim>\<open>symbols[]\<close>.
\<close>

datatype VALUE = Imm int | PairPtr nat | StrPtr nat | SymPtr nat

definition EOS :: VALUE where "EOS = Imm (- 1)"
definition NIL :: VALUE where "NIL = Imm 0"
definition T :: VALUE where "T = Imm 512"
definition F :: VALUE where "F = Imm 513"
definition U :: VALUE where "U = Imm 514"

text \<open>
  The state of the process: what is left of the input, the pairs and the strings
  allocated so far, and the names of \<^verbatim>\<open>symbols[0 .. symbols_n - 1]\<close> as the searches of
  the table read them.
\<close>

record state =
  stream :: "char list"
  pairs :: "(VALUE \<times> VALUE) list"
  strings :: "string list"
  symbols :: "string list"

text \<open>
  \<^verbatim>\<open>symbols_n\<close> starts at 1, so of the five names of the initializer only \<^verbatim>\<open>"."\<close>
  is ever found.
\<close>

definition initial :: "char list \<Rightarrow> state" where
  "initial inp = \<lparr>stream = inp, pairs = [], strings = [], symbols = [''.'']\<rparr>"

text \<open>
  What the build decides: the two optional macros that the test host leaves undefined
  (\<open>None\<close>) and a claim speaks of, the order in which the compiler evaluates the two
  arguments of a call (unspecified in C), and whether plain \<^verbatim>\<open>char\<close> is signed.
\<close>

record config =
  E :: "VALUE option"
  NIL_SYMBOL :: "VALUE option"
  args_left_to_right :: bool
  char_signed :: bool

definition test_host :: "bool \<Rightarrow> bool \<Rightarrow> config" where
  "test_host ltr sc =
     \<lparr>E = None, NIL_SYMBOL = None, args_left_to_right = ltr, char_signed = sc\<rparr>"

text \<open>The messages of \<^verbatim>\<open>ERROR\<close>, one constructor for each format string.\<close>

datatype error =
    Eos_in_list
  | Expected_something_before_dot
  | Eos_in_dot_list_after_cdr
  | Expected_found char char
  | Eos_after_hash
  | Eos_inside_comment
  | Eos_after_hash_backslash
  | Unknown_char_name string
  | Bad_sequence char
  | EOS_in_string
  | Invalid_number_string string
  | Unexpected_character char
  | Invalid_pointer

text \<open>
  A call of the reader returns a value and leaves a state, or aborts in \<^verbatim>\<open>ERROR\<close>, or
  has not returned when the fuel of the model is used up.
\<close>

datatype result = Return VALUE state | Error error | Out_of_fuel

subsection \<open>Characters\<close>

definition isspace :: "char \<Rightarrow> bool" where
  "isspace c = (c \<in> {CHR '' '', CHR 0x09, CHR 0x0A, CHR 0x0B, CHR 0x0C, CHR 0x0D})"

definition isalpha :: "char \<Rightarrow> bool" where
  "isalpha c = (c \<in> set ''abcdefghijklmnopqrstuvwxyzABCDEFGHIJKLMNOPQRSTUVWXYZ'')"

definition tolower :: "char \<Rightarrow> char" where
  "tolower c = (if c \<in> set ''ABCDEFGHIJKLMNOPQRSTUVWXYZ''
                then char_of (of_char c + (32 :: nat)) else c)"

text \<open>The bytes of a buffer up to its first NUL: what a \<^verbatim>\<open>char *\<close> denotes as a string.\<close>

definition c_str :: "string \<Rightarrow> string" where
  "c_str buf = takeWhile (\<lambda>c. c \<noteq> CHR 0x00) buf"

text \<open>\<^verbatim>\<open>macro_terminating_charQ\<close>, with \<^verbatim>\<open>BRACKET_LISTS\<close> defined; \<open>None\<close> is \<^verbatim>\<open>EOF\<close>.\<close>

fun macro_terminating_charQ :: "char option \<Rightarrow> bool" where
  "macro_terminating_charQ None = True"
| "macro_terminating_charQ (Some c) =
     (c = CHR '';'' \<or> c = CHR ''('' \<or> c = CHR '')'' \<or> c = CHR ''['' \<or> c = CHR '']''
      \<or> c = CHR ''#'' \<or> isspace c)"

subsection \<open>The input\<close>

text \<open>
  \<^verbatim>\<open>PEEKC\<close> is \<^verbatim>\<open>fgetc\<close> followed by \<^verbatim>\<open>ungetc\<close>: it leaves the input as it was.
\<close>

definition PEEKC :: "char list \<Rightarrow> char option" where
  "PEEKC cs = (case cs of [] \<Rightarrow> None | c # _ \<Rightarrow> Some c)"

definition GETC :: "char list \<Rightarrow> char option \<times> char list" where
  "GETC cs = (case cs of [] \<Rightarrow> (None, []) | c # cs' \<Rightarrow> (Some c, cs'))"

text \<open>
  \<^verbatim>\<open>eat_whitespace_peekchar\<close>: the first loop drops white space; at a \<^verbatim>\<open>;\<close> the
  second loop drops up to the end of the line (the \<^verbatim>\<open>;\<close> itself first) and control
  goes back to the first. The result is the character peeked last and the input left.
\<close>

function eat_whitespace_peekchar :: "char list \<Rightarrow> char option \<times> char list" where
  "eat_whitespace_peekchar cs =
     (let cs1 = dropWhile isspace cs in
      if PEEKC cs1 = Some (CHR '';'')
      then eat_whitespace_peekchar (dropWhile (\<lambda>c. c \<noteq> CHR 0x0A) cs1)
      else (PEEKC cs1, cs1))"
  by pat_completeness auto
termination
proof (relation "measure length")
  fix cs cs1 :: "char list"
  assume a: "cs1 = dropWhile isspace cs" and b: "PEEKC cs1 = Some (CHR '';'')"
  from b obtain r where r: "cs1 = CHR '';'' # r"
    by (auto simp: PEEKC_def split: list.splits)
  have "length (dropWhile (\<lambda>c. c \<noteq> CHR 0x0A) cs1) \<le> length r"
    unfolding r by (simp add: length_dropWhile_le)
  moreover have "length cs1 \<le> length cs"
    unfolding a by (rule length_dropWhile_le)
  ultimately show "(dropWhile (\<lambda>c. c \<noteq> CHR 0x0A) cs1, cs) \<in> measure length"
    using r by simp
qed simp

declare eat_whitespace_peekchar.simps [simp del]

subsection \<open>The host\<close>

text \<open>
  \<^verbatim>\<open>make_string(p, s)\<close> copies \<^verbatim>\<open>s + 1\<close> bytes into a new block. The reader calls it
  with \<^verbatim>\<open>p[s]\<close> set to NUL, so the block holds the \<^verbatim>\<open>s\<close> bytes given here and the NUL.
\<close>

definition make_string :: "string \<Rightarrow> state \<Rightarrow> VALUE \<times> state" where
  "make_string bytes s =
     (StrPtr (length (strings s)), s\<lparr>strings := strings s @ [bytes]\<rparr>)"

text \<open>
  The loop of \<^verbatim>\<open>string_2_symbol\<close>: the first index from \<open>i\<close> on whose name compares
  equal under \<^verbatim>\<open>strcmp\<close>, or the length of the table.
\<close>

fun find_symbol :: "string \<Rightarrow> string list \<Rightarrow> nat \<Rightarrow> nat" where
  "find_symbol name [] i = i"
| "find_symbol name (n # ns) i = (if name = n then i else find_symbol name ns (Suc i))"

text \<open>
  The bytes that a block from \<^verbatim>\<open>malloc(n)\<close> has: 24, 40, 56 and so on, the least of
  them that holds \<open>n\<close>.
\<close>

definition malloc_usable_size :: "nat \<Rightarrow> nat" where
  "malloc_usable_size n = (if n \<le> 24 then 24 else (n + 23) div 16 * 16 - 8)"

text \<open>
  \<^verbatim>\<open>strcpy(test_malloc(strlen(s)), s)\<close>, the copy that \<^verbatim>\<open>string_2_symbol\<close> makes of a new
  name: the block is asked for \<^verbatim>\<open>strlen(s)\<close> bytes and \<^verbatim>\<open>strcpy\<close> writes one more, the
  NUL. \<open>fits_block\<close> says that the block has a byte for it. When it has none (a name of
  24, 40, 56, ... bytes) the NUL is written on the first byte of the size field behind
  the block, and the next call of \<^verbatim>\<open>malloc\<close> writes there the size of its block with the
  flag that the block before it is in use: a byte that is not 0. The reader and the host
  call \<^verbatim>\<open>malloc\<close> before they search the table for such a name again, for 2 or 5 bytes
  (a buffer) or 16 (a pair, the name of a quote form); the field of such a block holds
  the byte \<^verbatim>\<open>0x21\<close>, which is \<^verbatim>\<open>!\<close>, and seven bytes 0. The model takes this byte (a
  buffer that \<^verbatim>\<open>realloc\<close> enlarges afterwards has another one there, not 0 either):
  \<open>symbol_copy\<close> is the name as \<^verbatim>\<open>strcmp\<close> reads it in the table from then on.
\<close>

definition fits_block :: "string \<Rightarrow> bool" where
  "fits_block name = (length name < malloc_usable_size (length name))"

definition symbol_copy :: "string \<Rightarrow> string" where
  "symbol_copy name = (if fits_block name then name else name @ [CHR 0x21])"

text \<open>
  \<^verbatim>\<open>string_2_symbol\<close> takes a \<^verbatim>\<open>char *\<close>: the model gives it the bytes its argument
  points to. A name that is not found is copied and entered at index \<^verbatim>\<open>symbols_n\<close>.
\<close>

definition string_2_symbol :: "string \<Rightarrow> state \<Rightarrow> VALUE \<times> state" where
  "string_2_symbol bytes s =
     (let name = c_str bytes; i = find_symbol name (symbols s) 0 in
      if i < length (symbols s) then (SymPtr i, s)
      else (SymPtr i, s\<lparr>symbols := symbols s @ [symbol_copy name]\<rparr>))"

text \<open>
  \<^verbatim>\<open>SYMBOL(NAME)\<close> is \<^verbatim>\<open>string_2_symbol(#NAME)\<close>: the name is the macro's argument as it
  is spelt. \<^verbatim>\<open>SYMBOL_DOT\<close> is \<^verbatim>\<open>string_2_symbol(".")\<close>, evaluated where it is used.
\<close>

definition SYMBOL :: "string \<Rightarrow> state \<Rightarrow> VALUE \<times> state" where
  "SYMBOL name s = string_2_symbol name s"

definition SYMBOL_DOT :: "state \<Rightarrow> VALUE \<times> state" where
  "SYMBOL_DOT s = string_2_symbol ''.'' s"

text \<open>
  \<^verbatim>\<open>strtol\<close> of the C library: white space, an optional sign, for base 16 an optional
  \<^verbatim>\<open>0x\<close> that a digit follows, then the longest run of digits of the base. The result
  is the value, kept within \<^verbatim>\<open>LONG_MIN\<close> and \<^verbatim>\<open>LONG_MAX\<close>, and what follows the digits;
  with no digit at all it is 0 and the whole string.
\<close>

definition digit_value :: "char \<Rightarrow> nat" where
  "digit_value c =
     (if c \<in> set ''0123456789'' then of_char c - 48
      else if c \<in> set ''abcdefghijklmnopqrstuvwxyz'' then of_char c - 87
      else if c \<in> set ''ABCDEFGHIJKLMNOPQRSTUVWXYZ'' then of_char c - 55
      else 36)"

definition is_digit :: "nat \<Rightarrow> char \<Rightarrow> bool" where
  "is_digit base c = (digit_value c < base)"

definition digits_value :: "nat \<Rightarrow> string \<Rightarrow> int" where
  "digits_value base ds = foldl (\<lambda>acc c. acc * int base + int (digit_value c)) 0 ds"

definition strtol :: "string \<Rightarrow> nat \<Rightarrow> int \<times> string" where
  "strtol str base =
     (let s1 = dropWhile isspace str;
          neg = (PEEKC s1 = Some (CHR ''-''));
          s2 = (if PEEKC s1 = Some (CHR ''-'') \<or> PEEKC s1 = Some (CHR ''+'') then tl s1 else s1);
          s3 = (if base = 16 \<and> (take 2 s2 = ''0x'' \<or> take 2 s2 = ''0X'')
                   \<and> list_ex (is_digit 16) (take 1 (drop 2 s2))
                then drop 2 s2 else s2);
          ds = takeWhile (is_digit base) s3;
          v = (if neg then - digits_value base ds else digits_value base ds)
      in if ds = [] then (0, str)
         else (max (- (2 ^ 63)) (min (2 ^ 63 - 1) v), dropWhile (is_digit base) s3))"

text \<open>
  The conversion of a value to \<^verbatim>\<open>int\<close>, and of the sum \<^verbatim>\<open>n + 8192\<close> computed in
  \<^verbatim>\<open>int\<close>: two's complement on 32 bits.
\<close>

definition to_int32 :: "int \<Rightarrow> int" where
  "to_int32 x = (x + 2 ^ 31) mod 2 ^ 32 - 2 ^ 31"

text \<open>
  \<^verbatim>\<open>string_2_number\<close>: the number \<open>n\<close> is the pointer \<^verbatim>\<open>(VALUE) (n + 8192)\<close> when
  \<^verbatim>\<open>strtol\<close> has used the whole string, and \<^verbatim>\<open>F\<close> otherwise. It changes no state.
\<close>

definition string_2_number :: "string \<Rightarrow> nat \<Rightarrow> VALUE" where
  "string_2_number bytes radix =
     (let (v, se) = strtol (c_str bytes) radix;
          n = to_int32 v
      in if se = [] then Imm (to_int32 (n + 8192)) else F)"

text \<open>\<^verbatim>\<open>cons\<close> allocates a pair; \<^verbatim>\<open>set_cdr\<close> assigns to \<^verbatim>\<open>p->cdr\<close>.\<close>

definition cons :: "VALUE \<Rightarrow> VALUE \<Rightarrow> state \<Rightarrow> VALUE \<times> state" where
  "cons a d s = (PairPtr (length (pairs s)), s\<lparr>pairs := pairs s @ [(a, d)]\<rparr>)"

text \<open>
  A pointer that is not the address of an allocated pair cannot be assigned through;
  the model says so with \<open>None\<close>.
\<close>

fun set_cdr :: "VALUE \<Rightarrow> VALUE \<Rightarrow> state \<Rightarrow> state option" where
  "set_cdr (PairPtr i) v s =
     (if i < length (pairs s)
      then Some (s\<lparr>pairs := (pairs s)[i := (fst (pairs s ! i), v)]\<rparr>)
      else None)"
| "set_cdr _ v s = None"

text \<open>\<^verbatim>\<open>MAKE_CHAR(I)\<close> is \<^verbatim>\<open>(VALUE) ((I) + 256)\<close>.\<close>

definition MAKE_CHAR :: "int \<Rightarrow> VALUE" where
  "MAKE_CHAR i = Imm (i + 256)"

subsection \<open>The productions without recursion\<close>

text \<open>
  The loop of the \<^verbatim>\<open>#|\<close> comment, entered with \<^verbatim>\<open>level = 1\<close> after the \<^verbatim>\<open>|\<close> has been
  read. It returns the level it stopped at and the input left: level 0 at the end of the
  comment, a positive level at the end of the input.
\<close>

fun block_comment :: "nat \<Rightarrow> char list \<Rightarrow> nat \<times> char list" where
  "block_comment 0 cs = (0, cs)"
| "block_comment (Suc l) [] = (Suc l, [])"
| "block_comment (Suc l) (c # cs) =
     (if c = CHR ''|'' \<and> PEEKC cs = Some (CHR ''#'') then block_comment l (tl cs)
      else if c = CHR ''#'' \<and> PEEKC cs = Some (CHR ''|'') then block_comment (Suc (Suc l)) (tl cs)
      else block_comment (Suc l) cs)"

text \<open>
  The label \<^verbatim>\<open>hash_again\<close>: the cases \<^verbatim>\<open>e E i I\<close> read the character and jump back to
  the label, so what reaches the other cases is the input without that run.
\<close>

fun hash_again :: "char list \<Rightarrow> char list" where
  "hash_again [] = []"
| "hash_again (c # cs) = (if c \<in> set ''eEiI'' then hash_again cs else c # cs)"

text \<open>
  The loop of the string production. \<open>esc\<close> says that control is at the label
  \<^verbatim>\<open>again\<close>, reached from the backslash case, where the character just read is not
  compared with the closing quote. \<open>None\<close> is the end of the input.
\<close>

fun read_string :: "bool \<Rightarrow> string \<Rightarrow> char list \<Rightarrow> (string \<times> char list) option" where
  "read_string esc buf [] = None"
| "read_string esc buf (c # cs) =
     (if \<not> esc \<and> c = CHR 0x22 then Some (buf, cs)
      else read_string (c = CHR 0x5C) (buf @ [c]) cs)"

text \<open>The value of \<^verbatim>\<open>buf[0]\<close> read back as an \<^verbatim>\<open>int\<close>.\<close>

definition char_to_int :: "config \<Rightarrow> char \<Rightarrow> int" where
  "char_to_int cfg c =
     (if char_signed cfg \<and> 128 \<le> (of_char c :: nat) then of_char c - 256 else of_char c)"

text \<open>
  The character literal; the input is what follows the backslash of \<^verbatim>\<open>#\\<close>.
\<close>

definition read_char :: "config \<Rightarrow> state \<Rightarrow> result" where
  "read_char cfg s =
     (case stream s of
        [] \<Rightarrow> Error Eos_after_hash_backslash
      | c # cs \<Rightarrow>
          let more = (if isalpha c
                      then takeWhile (\<lambda>x. isalpha x \<and> \<not> macro_terminating_charQ (Some x)) cs
                      else []);
              buf = c # more;
              s1 = s\<lparr>stream := drop (length more) cs\<rparr>
          in if map tolower (c_str buf) = ''space'' then Return (MAKE_CHAR 32) s1
             else if map tolower (c_str buf) = ''newline'' then Return (MAKE_CHAR 10) s1
             else if 1 < length buf then Error (Unknown_char_name (c_str buf))
             else Return (MAKE_CHAR (char_to_int cfg c)) s1)"

text \<open>
  The token production, from the label \<^verbatim>\<open>read_number\<close>: \<open>c\<close> is the character read
  last, which starts the buffer; after a radix prefix that is the radix letter, and
  \<^verbatim>\<open>skip_radix_char\<close> is 1.
\<close>

definition read_number :: "config \<Rightarrow> char \<Rightarrow> nat \<Rightarrow> nat \<Rightarrow> state \<Rightarrow> result" where
  "read_number cfg c skip_radix_char radix s =
     (let buf = c # takeWhile (\<lambda>x. \<not> macro_terminating_charQ (Some x)) (stream s);
          s1 = s\<lparr>stream := dropWhile (\<lambda>x. \<not> macro_terminating_charQ (Some x)) (stream s)\<rparr>;
          (str, s2) = make_string (drop skip_radix_char buf) s1;
          n = string_2_number (drop skip_radix_char buf) radix
      in if n = F
         then (if skip_radix_char \<noteq> 0
               then Error (Invalid_number_string (c_str (drop skip_radix_char buf)))
               else (let (sym, s3) = string_2_symbol (drop skip_radix_char buf) s2
                     in Return (if NIL_SYMBOL cfg = Some sym then NIL else sym) s3))
         else Return n s2)"

text \<open>
  The cases \<^verbatim>\<open>b B o O d D x X\<close> after \<^verbatim>\<open>#\<close>: each sets \<^verbatim>\<open>radix\<close>, reads the letter and
  goes to \<^verbatim>\<open>read_number\<close>.
\<close>

definition radix_letter :: "char \<Rightarrow> nat option" where
  "radix_letter h =
     (if h = CHR ''b'' \<or> h = CHR ''B'' then Some 2
      else if h = CHR ''o'' \<or> h = CHR ''O'' then Some 8
      else if h = CHR ''d'' \<or> h = CHR ''D'' then Some 10
      else if h = CHR ''x'' \<or> h = CHR ''X'' then Some 16
      else None)"

text \<open>The characters that start a token in the \<^verbatim>\<open>switch\<close>.\<close>

definition token_start :: "char \<Rightarrow> bool" where
  "token_start c =
     (c \<in> set ''0123456789'' \<or> c \<in> set ''~!@$%&*_+-=:<>^.?/|''
      \<or> c \<in> set ''abcdefghijklmnopqrstuvwxyz'' \<or> c \<in> set ''ABCDEFGHIJKLMNOPQRSTUVWXYZ'')"

subsection \<open>The reader\<close>

text \<open>
  \<^verbatim>\<open>CONS(SYMBOL(name), CONS(READ_CALL(), NIL))\<close>: the inner pair is made from the datum
  that the nested call \<open>rd\<close> returns, the outer one from the symbol and the inner pair.
  C does not say which argument of the outer \<^verbatim>\<open>cons\<close> is evaluated first, so the symbol is
  looked up before the nested call or after the inner pair is made.
\<close>

definition quote_form :: "config \<Rightarrow> string \<Rightarrow> (state \<Rightarrow> result) \<Rightarrow> state \<Rightarrow> result" where
  "quote_form cfg name rd s =
     (if args_left_to_right cfg
      then (let (q, s1) = SYMBOL name s in
            case rd s1 of
              Return x s2 \<Rightarrow>
                (let (p, s3) = cons x NIL s2; (r, s4) = cons q p s3 in Return r s4)
            | Error e \<Rightarrow> Error e
            | Out_of_fuel \<Rightarrow> Out_of_fuel)
      else (case rd s of
              Return x s1 \<Rightarrow>
                (let (p, s2) = cons x NIL s1; (q, s3) = SYMBOL name s2; (r, s4) = cons q p s3
                 in Return r s4)
            | Error e \<Rightarrow> Error e
            | Out_of_fuel \<Rightarrow> Out_of_fuel))"

text \<open>
  \<open>READ\<close> is the function that \<^verbatim>\<open>READ_DECL\<close> declares (\<^verbatim>\<open>test_read\<close>) and \<open>READ_list\<close> the
  \<^verbatim>\<open>while (1)\<close> loop of its list production, with the locals \<^verbatim>\<open>terminator\<close>, \<^verbatim>\<open>l\<close> and
  \<^verbatim>\<open>lc\<close>. The first argument after the configuration is fuel: every nested call, every
  \<^verbatim>\<open>goto try_again\<close> and every turn of the loop takes one unit. In the equation of
  \<open>READ\<close>, \<open>cs\<close> is the input at the character \<open>c\<close> just peeked, so after \<^verbatim>\<open>GETC\<close>
  the input is \<open>tl cs\<close>.

  The host's \<^verbatim>\<open>LIST_2_VECTOR(X)\<close> is \<^verbatim>\<open>(printf(..., P(X)), X)\<close>: it evaluates its argument
  twice, so \<^verbatim>\<open>LIST_2_VECTOR(READ_CALL())\<close> calls the reader twice and returns what the
  second call returns.
\<close>

fun READ :: "config \<Rightarrow> nat \<Rightarrow> state \<Rightarrow> result"
  and READ_list :: "config \<Rightarrow> nat \<Rightarrow> char \<Rightarrow> VALUE \<Rightarrow> VALUE \<Rightarrow> state \<Rightarrow> result"
where
  "READ cfg 0 s = Out_of_fuel"
| "READ cfg (Suc n) s =
     (case eat_whitespace_peekchar (stream s) of
        (None, cs) \<Rightarrow> Return EOS (s\<lparr>stream := cs\<rparr>)
      | (Some c, cs) \<Rightarrow>
          if c = CHR 0x27 then quote_form cfg ''quote'' (READ cfg n) (s\<lparr>stream := tl cs\<rparr>)
          else if c = CHR 0x60 then
            quote_form cfg ''quasiquote'' (READ cfg n) (s\<lparr>stream := tl cs\<rparr>)
          else if c = CHR '','' then
            (if PEEKC (tl cs) = Some (CHR ''@'')
             then quote_form cfg ''unquote_splicing'' (READ cfg n) (s\<lparr>stream := tl (tl cs)\<rparr>)
             else quote_form cfg ''unquote'' (READ cfg n) (s\<lparr>stream := tl cs\<rparr>))
          else if c = CHR ''['' then READ_list cfg n (CHR '']'') NIL NIL (s\<lparr>stream := tl cs\<rparr>)
          else if c = CHR ''('' then READ_list cfg n (CHR '')'') NIL NIL (s\<lparr>stream := tl cs\<rparr>)
          else if c = CHR ''#'' then
            (case hash_again (tl cs) of
               [] \<Rightarrow> Error Eos_after_hash
             | h # cs3 \<Rightarrow>
                 if h = CHR ''!'' then
                   READ cfg n (s\<lparr>stream := dropWhile (\<lambda>c. c \<noteq> CHR 0x0A) cs3\<rparr>)
                 else if h = CHR ''|'' then
                   (case block_comment 1 cs3 of
                      (0, cs4) \<Rightarrow> READ cfg n (s\<lparr>stream := cs4\<rparr>)
                    | (Suc level, cs4) \<Rightarrow> Error Eos_inside_comment)
                 else if h = CHR '';'' then
                   (case READ cfg n (s\<lparr>stream := cs3\<rparr>) of
                      Return x s1 \<Rightarrow> READ cfg n s1
                    | Error e \<Rightarrow> Error e
                    | Out_of_fuel \<Rightarrow> Out_of_fuel)
                 else if h = CHR ''('' then
                   (case READ cfg n (s\<lparr>stream := h # cs3\<rparr>) of
                      Return x s1 \<Rightarrow> READ cfg n s1
                    | Error e \<Rightarrow> Error e
                    | Out_of_fuel \<Rightarrow> Out_of_fuel)
                 else if h = CHR 0x5C then read_char cfg (s\<lparr>stream := cs3\<rparr>)
                 else if h = CHR ''f'' \<or> h = CHR ''F'' then Return F (s\<lparr>stream := cs3\<rparr>)
                 else if h = CHR ''t'' \<or> h = CHR ''T'' then Return T (s\<lparr>stream := cs3\<rparr>)
                 else if h = CHR ''u'' \<or> h = CHR ''U'' then Return U (s\<lparr>stream := cs3\<rparr>)
                 else if h = CHR ''#'' then
                   (case E cfg of
                      Some e \<Rightarrow> Return e (s\<lparr>stream := cs3\<rparr>)
                    | None \<Rightarrow> Error (Bad_sequence h))
                 else
                   (case radix_letter h of
                      Some radix \<Rightarrow> read_number cfg h 1 radix (s\<lparr>stream := cs3\<rparr>)
                    | None \<Rightarrow> Error (Bad_sequence h)))
          else if c = CHR 0x22 then
            (case read_string False [] (tl cs) of
               None \<Rightarrow> Error EOS_in_string
             | Some (buf, cs1) \<Rightarrow>
                 (let (str, s1) = make_string buf (s\<lparr>stream := cs1\<rparr>) in Return str s1))
          else if token_start c then read_number cfg c 0 10 (s\<lparr>stream := tl cs\<rparr>)
          else if 128 \<le> (of_char c :: nat) then read_number cfg c 0 10 (s\<lparr>stream := tl cs\<rparr>)
          else Error (Unexpected_character c))"
| "READ_list cfg 0 terminator l lc s = Out_of_fuel"
| "READ_list cfg (Suc n) terminator l lc s =
     (case eat_whitespace_peekchar (stream s) of
        (None, cs) \<Rightarrow> Error Eos_in_list
      | (Some c, cs) \<Rightarrow>
          if c = terminator then Return l (s\<lparr>stream := tl cs\<rparr>)
          else
            (case READ cfg n (s\<lparr>stream := cs\<rparr>) of
               Return x s1 \<Rightarrow>
                 (let (dot, s2) = SYMBOL_DOT s1 in
                  if x = dot then
                    (if lc = NIL then Error Expected_something_before_dot
                     else
                       (case READ cfg n s2 of
                          Return d s3 \<Rightarrow>
                            (case set_cdr lc d s3 of
                               None \<Rightarrow> Error Invalid_pointer
                             | Some s4 \<Rightarrow>
                                 (case eat_whitespace_peekchar (stream s4) of
                                    (None, cs') \<Rightarrow> Error Eos_in_dot_list_after_cdr
                                  | (Some c', cs') \<Rightarrow>
                                      if c' = terminator then Return l (s4\<lparr>stream := tl cs'\<rparr>)
                                      else Error (Expected_found terminator c')))
                        | Error e \<Rightarrow> Error e
                        | Out_of_fuel \<Rightarrow> Out_of_fuel))
                  else
                    (let (y, s3) = cons x NIL s2 in
                     if lc = NIL then READ_list cfg n terminator y y s3
                     else
                       (case set_cdr lc y s3 of
                          None \<Rightarrow> Error Invalid_pointer
                        | Some s4 \<Rightarrow> READ_list cfg n terminator l y s4)))
             | Error e \<Rightarrow> Error e
             | Out_of_fuel \<Rightarrow> Out_of_fuel))"

text \<open>
  A call from outside, as \<^verbatim>\<open>main\<close> makes it. The fuel is enough for every input: a
  nested call or a turn of the loop is made only after a character has been read.
\<close>

definition test_read :: "config \<Rightarrow> state \<Rightarrow> result" where
  "test_read cfg s = READ cfg (2 * length (stream s) + 1) s"

subsection \<open>Inputs and observations\<close>

text \<open>
  A token as the input spells it: a character that starts one, then characters that do
  not terminate it. It is a symbol token when the host does not read it as a number and
  it is not the dot; \<open>symbol_token\<close> takes those whose name the host copies whole.
\<close>

definition token :: "string \<Rightarrow> bool" where
  "token t =
     (case t of
        [] \<Rightarrow> False
      | c # body \<Rightarrow>
          (token_start c \<or> 128 \<le> (of_char c :: nat))
          \<and> list_all (\<lambda>x. \<not> macro_terminating_charQ (Some x)) body)"

definition symbol_token :: "string \<Rightarrow> bool" where
  "symbol_token t =
     (token t \<and> string_2_number t 10 = F \<and> c_str t \<noteq> ''.'' \<and> fits_block (c_str t))"

text \<open>
  \<open>v\<close> is the symbol of that name in the table of \<open>s\<close>: the pointer that
  \<^verbatim>\<open>string_2_symbol\<close> finds for the name.
\<close>

definition symbol_named :: "state \<Rightarrow> VALUE \<Rightarrow> string \<Rightarrow> bool" where
  "symbol_named s v name =
     (find_symbol name (symbols s) 0 < length (symbols s)
      \<and> v = SymPtr (find_symbol name (symbols s) 0))"

text \<open>
  The text between \<^verbatim>\<open>#|\<close> and the \<^verbatim>\<open>|#\<close> that matches it: characters other than
  \<^verbatim>\<open>#\<close> and \<^verbatim>\<open>|\<close>, and comments nested in it.
\<close>

datatype comment_item = Plain char | Nested "comment_item list"

fun render_item :: "comment_item \<Rightarrow> string" where
  "render_item (Plain c) = [c]"
| "render_item (Nested items) = ''#|'' @ concat (map render_item items) @ ''|#''"

fun plain_item :: "comment_item \<Rightarrow> bool" where
  "plain_item (Plain c) = (c \<noteq> CHR ''#'' \<and> c \<noteq> CHR ''|'')"
| "plain_item (Nested items) = list_all plain_item items"

text \<open>
  What the reader passes over before a datum: a white-space character, a comment from
  \<^verbatim>\<open>;\<close> to the end of the line, a block comment, a comment from \<^verbatim>\<open>#!\<close> to the end of
  the line. \<open>retries\<close> counts the \<^verbatim>\<open>goto try_again\<close> that it costs.
\<close>

datatype blank = White char | Line string | Block "comment_item list" | Shebang string

fun render_blank :: "blank \<Rightarrow> string" where
  "render_blank (White c) = [c]"
| "render_blank (Line body) = CHR '';'' # body @ [CHR 0x0A]"
| "render_blank (Block items) = render_item (Nested items)"
| "render_blank (Shebang body) = ''#!'' @ body @ [CHR 0x0A]"

fun blank_ok :: "blank \<Rightarrow> bool" where
  "blank_ok (White c) = isspace c"
| "blank_ok (Line body) = (CHR 0x0A \<notin> set body)"
| "blank_ok (Block items) = list_all plain_item items"
| "blank_ok (Shebang body) = (CHR 0x0A \<notin> set body)"

fun retries :: "blank \<Rightarrow> nat" where
  "retries (White c) = 0"
| "retries (Line body) = 0"
| "retries (Block items) = 1"
| "retries (Shebang body) = 1"

definition render_blanks :: "blank list \<Rightarrow> string" where
  "render_blanks bs = concat (map render_blank bs)"

text \<open>
  From \<open>s\<close> to \<open>s'\<close> the first \<open>b\<close> pairs are unchanged and no pair is lost, the
  strings and the table of symbols have only grown at their ends, and the input has not
  grown.
\<close>

definition grows_from :: "nat \<Rightarrow> state \<Rightarrow> state \<Rightarrow> bool" where
  "grows_from b s s' =
     (take b (pairs s') = take b (pairs s) \<and> length (pairs s) \<le> length (pairs s')
      \<and> prefix (strings s) (strings s') \<and> prefix (symbols s) (symbols s')
      \<and> length (stream s') \<le> length (stream s))"

section \<open>Properties\<close>

lemmas sentinel_defs = EOS_def NIL_def T_def F_def U_def

subsection \<open>The skipper\<close>

declare macro_terminating_charQ.simps [simp del]

lemma eat_comment:
  "PEEKC (dropWhile isspace cs) = Some (CHR '';'') \<Longrightarrow>
   eat_whitespace_peekchar cs =
     eat_whitespace_peekchar (dropWhile (\<lambda>c. c \<noteq> CHR 0x0A) (dropWhile isspace cs))"
  by (subst eat_whitespace_peekchar.simps) (simp add: Let_def)

lemma eat_no_comment:
  "PEEKC (dropWhile isspace cs) \<noteq> Some (CHR '';'') \<Longrightarrow>
   eat_whitespace_peekchar cs = (PEEKC (dropWhile isspace cs), dropWhile isspace cs)"
  by (subst eat_whitespace_peekchar.simps) (simp add: Let_def)

lemma eat_Nil: "eat_whitespace_peekchar [] = (None, [])"
  by (simp add: eat_no_comment PEEKC_def)

lemma eat_space: "isspace c \<Longrightarrow> eat_whitespace_peekchar (c # cs) = eat_whitespace_peekchar cs"
  by (subst (1 2) eat_whitespace_peekchar.simps) simp

lemma eat_spaces: "list_all isspace w \<Longrightarrow> eat_whitespace_peekchar (w @ cs) = eat_whitespace_peekchar cs"
  by (induction w) (simp_all add: eat_space)

lemma eat_stop:
  "\<not> isspace c \<Longrightarrow> c \<noteq> CHR '';'' \<Longrightarrow> eat_whitespace_peekchar (c # cs) = (Some c, c # cs)"
  by (simp add: eat_no_comment PEEKC_def)

lemma not_isspace_semicolon: "\<not> isspace (CHR '';'')"
  by (simp add: isspace_def)

lemma isspace_newline: "isspace (CHR 0x0A)"
  by (simp add: isspace_def)

lemma drop_line_eof: "CHR 0x0A \<notin> set body \<Longrightarrow> dropWhile (\<lambda>c. c \<noteq> CHR 0x0A) body = []"
  by (induction body) auto

lemma drop_line: 
  "CHR 0x0A \<notin> set body \<Longrightarrow> dropWhile (\<lambda>c. c \<noteq> CHR 0x0A) (body @ CHR 0x0A # cs) = CHR 0x0A # cs"
  by (induction body) auto

lemma eat_line_comment_eof:
  assumes "CHR 0x0A \<notin> set body"
  shows "eat_whitespace_peekchar (CHR '';'' # body) = (None, [])"
proof -
  have "eat_whitespace_peekchar (CHR '';'' # body) =
        eat_whitespace_peekchar (dropWhile (\<lambda>c. c \<noteq> CHR 0x0A) (CHR '';'' # body))"
    by (subst eat_comment) (simp_all add: not_isspace_semicolon PEEKC_def)
  also have "dropWhile (\<lambda>c. c \<noteq> CHR 0x0A) (CHR '';'' # body) = []"
    using drop_line_eof[OF assms] by simp
  finally show ?thesis by (simp add: eat_Nil)
qed

lemma eat_line_comment:
  assumes "CHR 0x0A \<notin> set body"
  shows "eat_whitespace_peekchar (CHR '';'' # body @ CHR 0x0A # cs) = eat_whitespace_peekchar cs"
proof -
  have "eat_whitespace_peekchar (CHR '';'' # body @ CHR 0x0A # cs) =
        eat_whitespace_peekchar (dropWhile (\<lambda>c. c \<noteq> CHR 0x0A) (CHR '';'' # body @ CHR 0x0A # cs))"
    by (subst eat_comment) (simp_all add: not_isspace_semicolon PEEKC_def)
  also have "dropWhile (\<lambda>c. c \<noteq> CHR 0x0A) (CHR '';'' # body @ CHR 0x0A # cs) = CHR 0x0A # cs"
    using drop_line[OF assms] by simp
  finally show ?thesis by (simp add: eat_space isspace_newline)
qed

text \<open>
  What the skipper returns: the character at the head of the input left, which is no
  longer than the input; skipping again changes nothing.
\<close>

lemma eat_result:
  "eat_whitespace_peekchar cs = (c, cs') \<Longrightarrow>
     c = PEEKC cs' \<and> length cs' \<le> length cs \<and> eat_whitespace_peekchar cs' = (c, cs')"
proof (induction cs arbitrary: c cs' rule: eat_whitespace_peekchar.induct)
  case (1 cs)
  let ?cs1 = "dropWhile isspace cs"
  let ?cs2 = "dropWhile (\<lambda>c. c \<noteq> CHR 0x0A) ?cs1"
  show ?case
  proof (cases "PEEKC ?cs1 = Some (CHR '';'')")
    case True
    with "1.prems" have e: "eat_whitespace_peekchar ?cs2 = (c, cs')"
      by (simp add: eat_comment)
    from "1.IH"[OF refl True e]
    have p: "c = PEEKC cs'" and l: "length cs' \<le> length ?cs2"
      and i: "eat_whitespace_peekchar cs' = (c, cs')" by simp_all
    have "length ?cs2 \<le> length ?cs1"
      by (rule length_dropWhile_le)
    moreover have "length ?cs1 \<le> length cs" by (rule length_dropWhile_le)
    ultimately show ?thesis using p l i by simp
  next
    case False
    with "1.prems" have e: "c = PEEKC ?cs1" "cs' = ?cs1"
      by (auto simp add: eat_no_comment)
    have "dropWhile isspace ?cs1 = ?cs1"
      by simp
    then have "eat_whitespace_peekchar ?cs1 = (PEEKC ?cs1, ?cs1)"
      using False by (simp add: eat_no_comment)
    then show ?thesis using e by (simp add: length_dropWhile_le)
  qed
qed

lemma eat_idem:
  "eat_whitespace_peekchar (snd (eat_whitespace_peekchar cs)) = eat_whitespace_peekchar cs"
  using eat_result[of cs "fst (eat_whitespace_peekchar cs)" "snd (eat_whitespace_peekchar cs)"]
  by simp

lemma READ_eat_cong:
  assumes "eat_whitespace_peekchar cs = eat_whitespace_peekchar cs'"
  shows "READ cfg n (s\<lparr>stream := cs\<rparr>) = READ cfg n (s\<lparr>stream := cs'\<rparr>)"
proof (cases n)
  case 0
  then show ?thesis by simp
next
  case (Suc m)
  obtain c r where e: "eat_whitespace_peekchar cs' = (c, r)" by fastforce
  with assms have e': "eat_whitespace_peekchar cs = (c, r)" by simp
  show ?thesis unfolding Suc
    by (cases c)
      (simp_all add: e e' cong: if_cong list.case_cong prod.case_cong nat.case_cong
         option.case_cong result.case_cong)
qed

lemma READ_list_eat_cong:
  assumes "eat_whitespace_peekchar cs = eat_whitespace_peekchar cs'"
  shows "READ_list cfg n t l lc (s\<lparr>stream := cs\<rparr>) = READ_list cfg n t l lc (s\<lparr>stream := cs'\<rparr>)"
proof (cases n)
  case 0
  then show ?thesis by simp
next
  case (Suc m)
  obtain c r where e: "eat_whitespace_peekchar cs' = (c, r)" by fastforce
  with assms have e': "eat_whitespace_peekchar cs = (c, r)" by simp
  show ?thesis unfolding Suc by (cases c) (simp_all add: e e')
qed

subsection \<open>The dispatch on the first character\<close>

lemma READ_eof: "READ cfg (Suc n) (s\<lparr>stream := []\<rparr>) = Return EOS (s\<lparr>stream := []\<rparr>)"
  by (simp add: eat_Nil)

lemma READ_open:
  "READ cfg (Suc n) (s\<lparr>stream := CHR ''('' # r\<rparr>) = READ_list cfg n (CHR '')'') NIL NIL (s\<lparr>stream := r\<rparr>)"
  by (simp add: eat_stop isspace_def)

lemma READ_block_comment:
  "READ cfg (Suc n) (s\<lparr>stream := CHR ''#'' # CHR ''|'' # r\<rparr>) =
     (case block_comment 1 r of
        (0, cs) \<Rightarrow> READ cfg n (s\<lparr>stream := cs\<rparr>)
      | (Suc l, cs) \<Rightarrow> Error Eos_inside_comment)"
  by (simp add: eat_stop isspace_def cong: prod.case_cong nat.case_cong)

lemma READ_shebang:
  "READ cfg (Suc n) (s\<lparr>stream := CHR ''#'' # CHR ''!'' # r\<rparr>) =
     READ cfg n (s\<lparr>stream := dropWhile (\<lambda>c. c \<noteq> CHR 0x0A) r\<rparr>)"
  by (simp add: eat_stop isspace_def)

lemma READ_exactness:
  "x \<in> set ''eEiI'' \<Longrightarrow>
   READ cfg m (s\<lparr>stream := CHR ''#'' # x # r\<rparr>) = READ cfg m (s\<lparr>stream := CHR ''#'' # r\<rparr>)"
  by (cases m)
    (simp_all add: eat_stop isspace_def Let_def
       cong: list.case_cong prod.case_cong nat.case_cong option.case_cong if_cong)

lemma radix_letter_cases: "radix_letter x = Some rdx \<Longrightarrow> x \<in> set ''bBoOdDxX''"
  by (auto simp add: radix_letter_def split: if_splits)

lemma radix_letter_facts:
  assumes "radix_letter x = Some rdx"
  shows "x \<notin> set ''eEiI'' \<and> x \<noteq> CHR ''!'' \<and> x \<noteq> CHR ''|'' \<and> x \<noteq> CHR '';'' \<and> x \<noteq> CHR ''(''
   \<and> x \<noteq> CHR 0x5C \<and> x \<noteq> CHR ''f'' \<and> x \<noteq> CHR ''F'' \<and> x \<noteq> CHR ''t'' \<and> x \<noteq> CHR ''T''
   \<and> x \<noteq> CHR ''u'' \<and> x \<noteq> CHR ''U'' \<and> x \<noteq> CHR ''#''"
  using radix_letter_cases[OF assms] by auto

lemma READ_radix:
  "radix_letter x = Some rdx \<Longrightarrow>
   READ cfg (Suc n) (s\<lparr>stream := CHR ''#'' # x # r\<rparr>) = read_number cfg x 1 rdx (s\<lparr>stream := r\<rparr>)"
  using radix_letter_facts[of x rdx] by (simp add: eat_stop isspace_def)

lemma token_lead_facts:
  "token_start c \<or> 128 \<le> (of_char c :: nat) \<Longrightarrow>
   \<not> isspace c \<and> c \<noteq> CHR '';'' \<and> c \<noteq> CHR 0x27 \<and> c \<noteq> CHR 0x60 \<and> c \<noteq> CHR '',''
   \<and> c \<noteq> CHR ''['' \<and> c \<noteq> CHR ''('' \<and> c \<noteq> CHR ''#'' \<and> c \<noteq> CHR 0x22
   \<and> c \<noteq> CHR '')'' \<and> c \<noteq> CHR '']''"
  by (auto simp: token_start_def isspace_def)

lemma READ_token:
  "token_start c \<or> 128 \<le> (of_char c :: nat) \<Longrightarrow>
   READ cfg (Suc n) (s\<lparr>stream := c # r\<rparr>) = read_number cfg c 0 10 (s\<lparr>stream := r\<rparr>)"
  using token_lead_facts[of c] by (auto simp add: eat_stop Let_def)

declare READ.simps [simp del] READ_list.simps [simp del]

subsection \<open>The token production\<close>

lemma scan_token:
  assumes "list_all (\<lambda>x. \<not> macro_terminating_charQ (Some x)) body"
    and "macro_terminating_charQ (PEEKC r)"
  shows "takeWhile (\<lambda>x. \<not> macro_terminating_charQ (Some x)) (body @ r) = body"
    and "dropWhile (\<lambda>x. \<not> macro_terminating_charQ (Some x)) (body @ r) = r"
proof -
  have r: "takeWhile (\<lambda>x. \<not> macro_terminating_charQ (Some x)) r = []"
    "dropWhile (\<lambda>x. \<not> macro_terminating_charQ (Some x)) r = r"
    using assms(2) by (cases r; simp add: PEEKC_def)+
  from assms(1) show "takeWhile (\<lambda>x. \<not> macro_terminating_charQ (Some x)) (body @ r) = body"
    by (induction body) (simp_all add: r)
  from assms(1) show "dropWhile (\<lambda>x. \<not> macro_terminating_charQ (Some x)) (body @ r) = r"
    by (induction body) (simp_all add: r)
qed

lemma read_number_buffer:
  assumes "list_all (\<lambda>x. \<not> macro_terminating_charQ (Some x)) body"
    and "macro_terminating_charQ (PEEKC r)"
  shows "read_number cfg c k radix (s\<lparr>stream := body @ r\<rparr>) =
     (let tok = drop k (c # body);
          s2 = s\<lparr>stream := r, strings := strings s @ [tok]\<rparr>;
          n = string_2_number tok radix
      in if n = F
         then (if k \<noteq> 0 then Error (Invalid_number_string (c_str tok))
               else (let (sym, s3) = string_2_symbol tok s2
                     in Return (if NIL_SYMBOL cfg = Some sym then NIL else sym) s3))
         else Return n s2)"
  by (simp add: read_number_def scan_token[OF assms] make_string_def Let_def)

text \<open>
  C3. Token production: the buffer is the character read first and the characters up
  to the next terminating one; after a radix prefix the buffer starts with the radix
  letter, and the host's number parser is given the buffer without that one byte, at
  the radix of the letter. When the parser succeeds (its result is not \<open>F\<close>) the reader
  returns the number.
\<close>

theorem token_number:
  assumes "list_all (\<lambda>x. \<not> macro_terminating_charQ (Some x)) body"
    and "macro_terminating_charQ (PEEKC r)"
  shows "(token_start c \<or> 128 \<le> (of_char c :: nat) \<longrightarrow>
          string_2_number (c # body) 10 \<noteq> F \<longrightarrow>
          READ cfg (Suc n) (s\<lparr>stream := c # body @ r\<rparr>) =
            Return (string_2_number (c # body) 10)
              (s\<lparr>stream := r, strings := strings s @ [c # body]\<rparr>))
       \<and> (radix_letter x = Some radix \<longrightarrow>
          string_2_number (drop 1 (x # body)) radix \<noteq> F \<longrightarrow>
          READ cfg (Suc n) (s\<lparr>stream := CHR ''#'' # x # body @ r\<rparr>) =
            Return (string_2_number (drop 1 (x # body)) radix)
              (s\<lparr>stream := r, strings := strings s @ [drop 1 (x # body)]\<rparr>))"
  by (simp add: READ_token READ_radix read_number_buffer[OF assms] Let_def)

theorem token_number_witness:
  "test_read (test_host True True) (initial ''123'') =
     Return (Imm (123 + 8192))
       \<lparr>stream = [], pairs = [], strings = [''123''], symbols = [''.'']\<rparr>
   \<and> test_read (test_host True True) (initial ''#x1F'') =
     Return (Imm (31 + 8192))
       \<lparr>stream = [], pairs = [], strings = [''1F''], symbols = [''.'']\<rparr>"
proof -
  have n1: "string_2_number ''123'' 10 = Imm (123 + 8192)"
    and n2: "string_2_number ''1F'' 16 = Imm (31 + 8192)"
    by code_simp+
  have b: "list_all (\<lambda>x. \<not> macro_terminating_charQ (Some x)) ''23''"
    "list_all (\<lambda>x. \<not> macro_terminating_charQ (Some x)) ''1F''"
    "macro_terminating_charQ (PEEKC [])"
    by (simp_all add: macro_terminating_charQ.simps isspace_def PEEKC_def)
  have x: "radix_letter (CHR ''x'') = Some 16" by (simp add: radix_letter_def)
  have t: "token_start (CHR ''1'')" by (simp add: token_start_def)
  from token_number[OF b(1) b(3), of "CHR ''1''" "test_host True True" 6 "initial []"]
    token_number[OF b(2) b(3), of _ "test_host True True" 8 "initial []" "CHR ''x''" 16]
  show ?thesis
    by (simp add: test_read_def n1 n2 x t F_def initial_def)
qed

subsection \<open>The table of symbols\<close>

lemma find_symbol_bounds: "i \<le> find_symbol name ns i \<and> find_symbol name ns i \<le> i + length ns"
proof (induction ns arbitrary: i)
  case Nil
  then show ?case by simp
next
  case (Cons a ns)
  from Cons[of "Suc i"] show ?case by simp
qed

lemma find_symbol_found:
  "find_symbol name ns i < i + length ns \<Longrightarrow> ns ! (find_symbol name ns i - i) = name"
proof (induction ns arbitrary: i)
  case Nil
  then show ?case by simp
next
  case (Cons a ns)
  show ?case
  proof (cases "name = a")
    case True
    then show ?thesis by simp
  next
    case False
    with Cons.prems have "find_symbol name ns (Suc i) < Suc i + length ns" by simp
    from Cons.IH[OF this] find_symbol_bounds[of "Suc i" name ns] False
    show ?thesis by (simp add: Suc_diff_le)
  qed
qed

lemma find_symbol_append:
  "find_symbol name ns i < i + length ns \<Longrightarrow> find_symbol name (ns @ ext) i = find_symbol name ns i"
  by (induction ns arbitrary: i) auto

lemma find_symbol_new:
  "find_symbol name ns i = i + length ns \<Longrightarrow> find_symbol name (ns @ [name]) i = i + length ns"
proof (induction ns arbitrary: i)
  case Nil
  then show ?case by simp
next
  case (Cons a ns)
  from Cons.prems find_symbol_bounds[of i name "a # ns"] have ne: "name \<noteq> a"
    by (cases "name = a") auto
  with Cons.prems have "find_symbol name ns (Suc i) = Suc i + length ns" by simp
  from Cons.IH[OF this] ne show ?case by simp
qed

lemma symbol_named_index:
  "symbol_named s (SymPtr i) name \<Longrightarrow> i < length (symbols s) \<and> symbols s ! i = name"
  using find_symbol_found[of name "symbols s" 0] by (simp add: symbol_named_def)

lemma symbol_named_is_SymPtr: "symbol_named s v name \<Longrightarrow> \<exists>i. v = SymPtr i"
  by (simp add: symbol_named_def)

lemma symbol_named_inject: "symbol_named s v a \<Longrightarrow> symbol_named s v b \<Longrightarrow> a = b"
  using symbol_named_index symbol_named_is_SymPtr by metis

lemma symbol_named_append:
  "symbol_named s v name \<Longrightarrow> symbols s' = symbols s @ ext \<Longrightarrow> symbol_named s' v name"
  by (simp add: symbol_named_def find_symbol_append)

lemma symbol_copy_fits: "fits_block name \<Longrightarrow> symbol_copy name = name"
  by (simp add: symbol_copy_def)

lemma fits_block_short: "length name < 24 \<Longrightarrow> fits_block name"
  by (simp add: fits_block_def malloc_usable_size_def)

lemma malloc_usable_size_gt: "(n < malloc_usable_size n) = (n < 24 \<or> n mod 16 \<noteq> 8)"
proof (cases "n \<le> 24")
  case True
  show ?thesis
  proof (cases "n = 24")
    case eq: True
    then show ?thesis by (simp add: malloc_usable_size_def)
  next
    case ne: False
    with True have "n < 24" by simp
    with True show ?thesis by (simp add: malloc_usable_size_def)
  qed
next
  case False
  define q where "q = n div 16"
  define r where "r = n mod 16"
  have n: "n = 16 * q + r" and r: "r < 16" by (simp_all add: q_def r_def)
  have d: "(n + 23) div 16 = q + 1 + (r + 7) div 16"
    using div_add1_eq[of n 23 16] by (simp add: q_def r_def)
  have e: "(r + 7) div 16 = (if r < 9 then 0 else 1)"
  proof (cases "r < 9")
    case True
    then show ?thesis by simp
  next
    case False
    with r have "16 \<le> r + 7" "r + 7 < 32" by simp_all
    then have "(r + 7) div 16 = 1" by (simp add: div_nat_eqI)
    with False show ?thesis by simp
  qed
  have u: "malloc_usable_size n = (if r < 9 then 16 * q + 8 else 16 * q + 24)"
    using False by (simp add: malloc_usable_size_def d e)
  show ?thesis unfolding u using n r False by (auto simp: r_def[symmetric])
qed

lemma fits_block_iff: "fits_block name \<longleftrightarrow> length name < 24 \<or> length name mod 16 \<noteq> 8"
  by (simp only: fits_block_def malloc_usable_size_gt)

text \<open>
  \<^verbatim>\<open>string_2_symbol\<close> returns the symbol of the name it is given when the name is in the
  table or its copy is whole; it changes at most the table, and only by an entry at
  its end.
\<close>

lemma string_2_symbol_result:
  assumes "string_2_symbol t s = (v, s')"
  shows "fits_block (c_str t) \<Longrightarrow> symbol_named s' v (c_str t)"
    and "\<exists>ext. s' = s\<lparr>symbols := symbols s @ ext\<rparr>"
proof -
  let ?i = "find_symbol (c_str t) (symbols s) 0"
  show "symbol_named s' v (c_str t)" if fit: "fits_block (c_str t)"
  proof (cases "?i < length (symbols s)")
    case True
    with assms show ?thesis by (auto simp: string_2_symbol_def symbol_named_def Let_def)
  next
    case False
    with find_symbol_bounds[of 0 "c_str t" "symbols s"] have e: "?i = 0 + length (symbols s)" by simp
    from find_symbol_new[OF e] assms False e show ?thesis
      by (auto simp: string_2_symbol_def symbol_named_def Let_def symbol_copy_fits[OF fit])
  qed
  show "\<exists>ext. s' = s\<lparr>symbols := symbols s @ ext\<rparr>"
  proof (cases "?i < length (symbols s)")
    case True
    with assms have "s' = s\<lparr>symbols := symbols s @ []\<rparr>"
      by (auto simp: string_2_symbol_def Let_def)
    then show ?thesis by blast
  next
    case False
    with assms have "s' = s\<lparr>symbols := symbols s @ [symbol_copy (c_str t)]\<rparr>"
      by (auto simp: string_2_symbol_def Let_def)
    then show ?thesis by blast
  qed
qed

lemma string_2_symbol_known:
  "symbol_named s v (c_str t) \<Longrightarrow> string_2_symbol t s = (v, s)"
  by (simp add: string_2_symbol_def symbol_named_def Let_def)

text \<open>
  A new name whose copy is not whole is not the name of its symbol, and the next search
  for it makes another symbol; so a token with such a name read twice gives two symbols.
\<close>

lemma find_symbol_other:
  "find_symbol name ns i = i + length ns \<Longrightarrow> e \<noteq> name \<Longrightarrow>
   find_symbol name (ns @ [e]) i = Suc (i + length ns)"
proof (induction ns arbitrary: i)
  case Nil
  then show ?case by simp
next
  case (Cons a ns)
  from Cons.prems(1) find_symbol_bounds[of i name "a # ns"] have ne: "name \<noteq> a"
    by (cases "name = a") auto
  with Cons.prems have "find_symbol name ns (Suc i) = Suc i + length ns" by simp
  from Cons.IH[OF this Cons.prems(2)] ne show ?case by simp
qed

lemma string_2_symbol_long:
  assumes long: "\<not> fits_block (c_str t)"
    and new: "find_symbol (c_str t) (symbols s) 0 = length (symbols s)"
    and y: "string_2_symbol t s = (v, s')"
  shows "v = SymPtr (length (symbols s))" and "\<not> symbol_named s' v (c_str t)"
    and "fst (string_2_symbol t s') = SymPtr (Suc (length (symbols s)))"
proof -
  from long have c: "symbol_copy (c_str t) = c_str t @ [CHR 0x21]" by (simp add: symbol_copy_def)
  from y new c have v: "v = SymPtr (length (symbols s))"
    and s': "s' = s\<lparr>symbols := symbols s @ [c_str t @ [CHR 0x21]]\<rparr>"
    by (simp_all add: string_2_symbol_def Let_def)
  from new have "find_symbol (c_str t) (symbols s) 0 = 0 + length (symbols s)" by simp
  from find_symbol_other[OF this, of "c_str t @ [CHR 0x21]"]
  have f: "find_symbol (c_str t) (symbols s') 0 = Suc (length (symbols s))" by (simp add: s')
  show "v = SymPtr (length (symbols s))" by (rule v)
  show "\<not> symbol_named s' v (c_str t)" using f by (simp add: symbol_named_def s')
  show "fst (string_2_symbol t s') = SymPtr (Suc (length (symbols s)))"
    using f by (simp add: string_2_symbol_def Let_def s')
qed

lemma token_not_interned:
  assumes body: "list_all (\<lambda>x. \<not> macro_terminating_charQ (Some x)) body"
    and r: "macro_terminating_charQ (PEEKC r)"
    and c: "token_start c \<or> 128 \<le> (of_char c :: nat)"
    and nn: "string_2_number (c # body) 10 = F"
    and long: "\<not> fits_block (c_str (c # body))"
    and new: "find_symbol (c_str (c # body)) (symbols s) 0 = length (symbols s)"
    and nil: "NIL_SYMBOL cfg = None"
  shows "\<exists>s' s''. READ cfg (Suc n) (s\<lparr>stream := c # body @ r\<rparr>) =
                     Return (SymPtr (length (symbols s))) s'
     \<and> \<not> symbol_named s' (SymPtr (length (symbols s))) (c_str (c # body))
     \<and> READ cfg (Suc n) (s'\<lparr>stream := c # body @ r\<rparr>) =
           Return (SymPtr (Suc (length (symbols s)))) s''"
proof -
  let ?t = "c # body"
  let ?s0 = "s\<lparr>stream := r, strings := strings s @ [?t]\<rparr>"
  obtain v s' where y: "string_2_symbol ?t ?s0 = (v, s')" by fastforce
  from new have new0: "find_symbol (c_str ?t) (symbols ?s0) 0 = length (symbols ?s0)" by simp
  note l = string_2_symbol_long[OF long new0 y]
  from string_2_symbol_result(2)[OF y] obtain ext where
    s': "s' = ?s0\<lparr>symbols := symbols ?s0 @ ext\<rparr>" by blast
  have rd: "READ cfg (Suc n) (s\<lparr>stream := ?t @ r\<rparr>) = Return v s'"
    using READ_token[OF c, where cfg=cfg and n=n and s=s and r="body @ r"]
      read_number_buffer[OF body r] nn y nil
    by (simp add: Let_def)
  let ?s1 = "s'\<lparr>stream := r, strings := strings s' @ [?t]\<rparr>"
  obtain v' s'' where y': "string_2_symbol ?t ?s1 = (v', s'')" by fastforce
  have "string_2_symbol ?t ?s1 =
      (fst (string_2_symbol ?t s'), (snd (string_2_symbol ?t s'))\<lparr>stream := r, strings := strings s' @ [?t]\<rparr>)"
    by (simp add: string_2_symbol_def Let_def)
  with y' l(3) have v': "v' = SymPtr (Suc (length (symbols s)))" by simp
  have rd': "READ cfg (Suc n) (s'\<lparr>stream := ?t @ r\<rparr>) = Return v' s''"
    using READ_token[OF c, where cfg=cfg and n=n and s=s' and r="body @ r"]
      read_number_buffer[OF body r] nn y' nil
    by (simp add: Let_def)
  from rd rd' l(1,2) v' show ?thesis by auto
qed

text \<open>
  When the host's number parser fails on a token (returns \<open>F\<close>): after a radix
  prefix the reader raises "invalid number string"; with no prefix it makes the text of
  the token a symbol with \<^verbatim>\<open>STRING_2_SYMBOL\<close> and returns it, or \<open>NIL\<close> in its place when
  the symbol is the one the build names \<^verbatim>\<open>NIL_SYMBOL\<close>.
\<close>

lemma token_not_number:
  assumes "list_all (\<lambda>x. \<not> macro_terminating_charQ (Some x)) body"
    and "macro_terminating_charQ (PEEKC r)"
  shows "(radix_letter x = Some radix \<longrightarrow>
          string_2_number (drop 1 (x # body)) radix = F \<longrightarrow>
          READ cfg (Suc n) (s\<lparr>stream := CHR ''#'' # x # body @ r\<rparr>) =
            Error (Invalid_number_string (c_str (drop 1 (x # body)))))
       \<and> (token_start c \<or> 128 \<le> (of_char c :: nat) \<longrightarrow>
          string_2_number (c # body) 10 = F \<longrightarrow>
          READ cfg (Suc n) (s\<lparr>stream := c # body @ r\<rparr>) =
            (let (sym, s') = string_2_symbol (c # body)
                               (s\<lparr>stream := r, strings := strings s @ [c # body]\<rparr>)
             in Return (if NIL_SYMBOL cfg = Some sym then NIL else sym) s'))"
  by (simp add: READ_token READ_radix read_number_buffer[OF assms] Let_def)

text \<open>
  The symbol that the reader returns for such a token is the symbol of its text when
  the text is in the table or its copy is whole: the table has the text at the index
  returned, it is the table as it was or with the text entered at its end, and the
  token read once more gives the same symbol and leaves the table.
\<close>

lemma token_interned:
  assumes body: "list_all (\<lambda>x. \<not> macro_terminating_charQ (Some x)) body"
    and r: "macro_terminating_charQ (PEEKC r)"
    and c: "token_start c \<or> 128 \<le> (of_char c :: nat)"
    and nn: "string_2_number (c # body) 10 = F"
    and fit: "fits_block (c_str (c # body))"
  shows "\<exists>v s'. READ cfg (Suc n) (s\<lparr>stream := c # body @ r\<rparr>) =
                   Return (if NIL_SYMBOL cfg = Some v then NIL else v) s'
     \<and> symbol_named s' v (c_str (c # body))
     \<and> (symbols s' = symbols s \<or> symbols s' = symbols s @ [c_str (c # body)])
     \<and> stream s' = r \<and> pairs s' = pairs s \<and> strings s' = strings s @ [c # body]
     \<and> READ cfg (Suc n) (s'\<lparr>stream := c # body @ r\<rparr>) =
           Return (if NIL_SYMBOL cfg = Some v then NIL else v)
             (s'\<lparr>stream := r, strings := strings s' @ [c # body]\<rparr>)"
proof -
  let ?t = "c # body"
  let ?s0 = "s\<lparr>stream := r, strings := strings s @ [?t]\<rparr>"
  obtain v s' where y: "string_2_symbol ?t ?s0 = (v, s')" by fastforce
  from string_2_symbol_result(1)[OF y fit] have named: "symbol_named s' v (c_str ?t)" .
  have s': "s' = ?s0 \<or> s' = ?s0\<lparr>symbols := symbols ?s0 @ [c_str ?t]\<rparr>"
    using y symbol_copy_fits[OF fit] by (auto simp: string_2_symbol_def Let_def split: if_splits)
  have rd: "READ cfg (Suc n) (s\<lparr>stream := ?t @ r\<rparr>) =
      Return (if NIL_SYMBOL cfg = Some v then NIL else v) s'"
    using token_not_number[OF body r, of _ _ cfg n s c] c nn y by simp
  let ?s1 = "s'\<lparr>stream := r, strings := strings s' @ [?t]\<rparr>"
  from named have "symbol_named ?s1 v (c_str ?t)" by (simp add: symbol_named_def)
  from string_2_symbol_known[OF this]
  have again: "READ cfg (Suc n) (s'\<lparr>stream := ?t @ r\<rparr>) =
      Return (if NIL_SYMBOL cfg = Some v then NIL else v) ?s1"
    using token_not_number[OF body r, of _ _ cfg n s' c] c nn by simp
  from s' have f: "symbols s' = symbols s \<or> symbols s' = symbols s @ [c_str ?t]"
    "stream s' = r" "pairs s' = pairs s" "strings s' = strings s @ [?t]"
    by auto
  from rd named f again show ?thesis by auto
qed

lemma token_not_number_examples:
  "test_read (test_host True True) (initial ''#xZZ'') = Error (Invalid_number_string ''ZZ'')
   \<and> test_read (test_host True True) (initial ''foo'') =
       Return (SymPtr 1)
         \<lparr>stream = [], pairs = [], strings = [''foo''], symbols = [''.'', ''foo'']\<rparr>
   \<and> test_read
        \<lparr>E = None, NIL_SYMBOL = Some (SymPtr 1), args_left_to_right = True, char_signed = True\<rparr>
        (initial ''foo'') =
       Return NIL
         \<lparr>stream = [], pairs = [], strings = [''foo''], symbols = [''.'', ''foo'']\<rparr>"
  by code_simp

text \<open>
  C4. A token that is not a number, with no radix prefix, is to be made a symbol of its
  text and returned (after a prefix, as in \<^verbatim>\<open>#xZZ\<close>, the reader raises "invalid number
  string"). The host does so for \<^verbatim>\<open>foo\<close>: both tokens of \<^verbatim>\<open>(foo foo)\<close> are the symbol
  1, named \<^verbatim>\<open>foo\<close> in the table. It does not for a token of 24 bytes:
  \<^verbatim>\<open>string_2_symbol\<close> copies the text with \<^verbatim>\<open>strcpy\<close> into a block of \<^verbatim>\<open>strlen(s)\<close>
  bytes, one short of the NUL, the NUL is overwritten, and the table does not have the
  text: the two tokens of the second list are the symbols 1 and 2, and neither
  is named by the token.
\<close>

theorem token_of_24_bytes_not_interned:
  "test_read (test_host ltr sc) (initial ''#xZZ'') = Error (Invalid_number_string ''ZZ'')
   \<and> test_read (test_host ltr sc) (initial ''(foo foo)'') =
       Return (PairPtr 0)
         \<lparr>stream = [], pairs = [(SymPtr 1, PairPtr 1), (SymPtr 1, NIL)],
            strings = [''foo'', ''foo''], symbols = [''.'', ''foo'']\<rparr>
   \<and> test_read (test_host ltr sc)
        (initial ''(aaaaaaaaaaaaaaaaaaaaaaaa aaaaaaaaaaaaaaaaaaaaaaaa)'') =
       Return (PairPtr 0)
         \<lparr>stream = [], pairs = [(SymPtr 1, PairPtr 1), (SymPtr 2, NIL)],
            strings = [''aaaaaaaaaaaaaaaaaaaaaaaa'', ''aaaaaaaaaaaaaaaaaaaaaaaa''],
            symbols = [''.'', ''aaaaaaaaaaaaaaaaaaaaaaaa!'', ''aaaaaaaaaaaaaaaaaaaaaaaa!'']\<rparr>"
  by code_simp

subsection \<open>Comments\<close>

lemma PEEKC_simps [simp]: "PEEKC [] = None" "PEEKC (c # cs) = Some c"
  by (simp_all add: PEEKC_def)

lemma block_comment_open:
  "block_comment (Suc l) (CHR ''#'' # CHR ''|'' # r) = block_comment (Suc (Suc l)) r"
  by simp

lemma block_comment_close:
  "block_comment (Suc l) (CHR ''|'' # CHR ''#'' # r) = block_comment l r"
  by simp

lemma block_comment_plain:
  "c \<noteq> CHR ''#'' \<Longrightarrow> c \<noteq> CHR ''|'' \<Longrightarrow> block_comment (Suc l) (c # r) = block_comment (Suc l) r"
  by simp

declare block_comment.simps(3) [simp del]

text \<open>
  The scanner passes over a well-nested text at the level it entered it with; at the
  end of the input it stops at that level.
\<close>

lemma block_comment_item:
  "plain_item item \<Longrightarrow>
   block_comment (Suc l) (render_item item @ r) = block_comment (Suc l) r"
proof (induction item arbitrary: l r)
  case (Plain c)
  then show ?case by (simp add: block_comment_plain)
next
  case (Nested items)
  have items: "block_comment (Suc k) (concat (map render_item xs) @ r') = block_comment (Suc k) r'"
    if "set xs \<subseteq> set items" for xs k r'
    using that
  proof (induction xs)
    case Nil
    then show ?case by simp
  next
    case (Cons x xs)
    from Cons.prems have x: "x \<in> set items" and xs: "set xs \<subseteq> set items" by auto
    from Nested.prems x have "plain_item x" by (simp add: list_all_iff)
    from Nested.IH[OF x this] Cons.IH[OF xs] show ?case by simp
  qed
  have "block_comment (Suc l) (render_item (Nested items) @ r) =
        block_comment (Suc (Suc l)) (concat (map render_item items) @ CHR ''|'' # CHR ''#'' # r)"
    by (simp add: block_comment_open)
  also have "\<dots> = block_comment (Suc (Suc l)) (CHR ''|'' # CHR ''#'' # r)"
    by (rule items) simp
  also have "\<dots> = block_comment (Suc l) r"
    by (rule block_comment_close)
  finally show ?case .
qed

lemma block_comment_items:
  "list_all plain_item items \<Longrightarrow>
   block_comment (Suc l) (concat (map render_item items) @ r) = block_comment (Suc l) r"
  by (induction items) (simp_all add: block_comment_item)

lemma READ_blank:
  assumes "blank_ok b"
  shows "READ cfg (retries b + n) (s\<lparr>stream := render_blank b @ rest\<rparr>) = READ cfg n (s\<lparr>stream := rest\<rparr>)"
proof (cases b)
  case (White c)
  with assms show ?thesis by (simp add: READ_eat_cong[OF eat_space])
next
  case (Line body)
  with assms show ?thesis by (simp add: READ_eat_cong[OF eat_line_comment])
next
  case (Block items)
  with assms have "block_comment 1 (concat (map render_item items) @ CHR ''|'' # CHR ''#'' # rest) = (0, rest)"
    using block_comment_items[of items 0 "CHR ''|'' # CHR ''#'' # rest"]
    by (simp add: block_comment_close)
  with Block show ?thesis by (simp add: READ_block_comment)
next
  case (Shebang body)
  with assms have "dropWhile (\<lambda>c. c \<noteq> CHR 0x0A) (body @ CHR 0x0A # rest) = CHR 0x0A # rest"
    by (simp add: drop_line)
  with Shebang show ?thesis
    using READ_eat_cong[OF eat_space[OF isspace_newline, of rest], of cfg n s]
    by (simp add: READ_shebang)
qed

lemma READ_blanks:
  "list_all blank_ok bs \<Longrightarrow>
   READ cfg (sum_list (map retries bs) + n) (s\<lparr>stream := render_blanks bs @ rest\<rparr>) =
   READ cfg n (s\<lparr>stream := rest\<rparr>)"
proof (induction bs)
  case Nil
  then show ?case by (simp add: render_blanks_def)
next
  case (Cons b bs)
  then have b: "blank_ok b" and bs: "list_all blank_ok bs" by simp_all
  have "READ cfg (sum_list (map retries (b # bs)) + n) (s\<lparr>stream := render_blanks (b # bs) @ rest\<rparr>) =
        READ cfg (retries b + (sum_list (map retries bs) + n))
          (s\<lparr>stream := render_blank b @ (render_blanks bs @ rest)\<rparr>)"
    by (simp add: render_blanks_def add.assoc)
  also have "\<dots> = READ cfg (sum_list (map retries bs) + n) (s\<lparr>stream := render_blanks bs @ rest\<rparr>)"
    by (rule READ_blank[OF b])
  also have "\<dots> = READ cfg n (s\<lparr>stream := rest\<rparr>)"
    by (rule Cons.IH[OF bs])
  finally show ?case .
qed

lemma retries_le_length: "sum_list (map retries bs) \<le> length (render_blanks bs)"
proof (induction bs)
  case Nil
  then show ?case by (simp add: render_blanks_def)
next
  case (Cons b bs)
  have "retries b \<le> length (render_blank b)" by (cases b) simp_all
  with Cons show ?case by (simp add: render_blanks_def)
qed

lemma READ_blanks_eof:
  assumes "list_all blank_ok bs" and "sum_list (map retries bs) < m"
  shows "READ cfg m (s\<lparr>stream := render_blanks bs\<rparr>) = Return EOS (s\<lparr>stream := []\<rparr>)"
proof -
  from assms(2) have m: "m = sum_list (map retries bs) + Suc (m - sum_list (map retries bs) - 1)"
    by simp
  from READ_blanks[OF assms(1), where cfg=cfg and n="Suc (m - sum_list (map retries bs) - 1)"
      and s=s and rest="[]"]
  show ?thesis
    by (subst m) (simp add: READ_eof)
qed

text \<open>
  C9. At the end of the input the reader returns \<open>EOS\<close>: from an empty input, and from
  one that holds only white space and comments (\<^verbatim>\<open>;\<close> comments, \<^verbatim>\<open>#!\<close> comments and
  block comments; the last \<^verbatim>\<open>;\<close> or \<^verbatim>\<open>#!\<close> comment may end with the input). The
  input is then used up, and a call on an input that is used up returns \<open>EOS\<close> and
  leaves the state as it is, with any fuel.
\<close>

theorem end_of_stream:
  "(list_all blank_ok bs \<longrightarrow>
      test_read cfg (s\<lparr>stream := render_blanks bs\<rparr>) = Return EOS (s\<lparr>stream := []\<rparr>))
   \<and> (list_all blank_ok bs \<and> CHR 0x0A \<notin> set body \<longrightarrow>
      test_read cfg (s\<lparr>stream := render_blanks bs @ CHR '';'' # body\<rparr>) =
        Return EOS (s\<lparr>stream := []\<rparr>)
      \<and> test_read cfg (s\<lparr>stream := render_blanks bs @ ''#!'' @ body\<rparr>) =
        Return EOS (s\<lparr>stream := []\<rparr>))
   \<and> test_read cfg (s\<lparr>stream := []\<rparr>) = Return EOS (s\<lparr>stream := []\<rparr>)
   \<and> READ cfg (Suc n) (s\<lparr>stream := []\<rparr>) = Return EOS (s\<lparr>stream := []\<rparr>)"
proof -
  let ?k = "sum_list (map retries bs)"
  have a: "test_read cfg (s\<lparr>stream := render_blanks bs\<rparr>) = Return EOS (s\<lparr>stream := []\<rparr>)"
    if ok: "list_all blank_ok bs"
  proof -
    have "?k < 2 * length (render_blanks bs) + 1"
      using retries_le_length[of bs] by simp
    from READ_blanks_eof[OF ok this] show ?thesis by (simp add: test_read_def)
  qed
  have b: "test_read cfg (s\<lparr>stream := render_blanks bs @ CHR '';'' # body\<rparr>) =
        Return EOS (s\<lparr>stream := []\<rparr>)"
    if ok: "list_all blank_ok bs" and body: "CHR 0x0A \<notin> set body"
  proof -
    let ?m = "2 * length (render_blanks bs @ CHR '';'' # body) + 1"
    obtain j where j: "?m = ?k + Suc j"
    proof -
      have "?k + 1 \<le> ?m" using retries_le_length[of bs] by simp
      then have "?m = ?k + Suc (?m - ?k - 1)" by simp
      then show ?thesis using that by blast
    qed
    have "READ cfg (?k + Suc j) (s\<lparr>stream := render_blanks bs @ CHR '';'' # body\<rparr>) =
          READ cfg (Suc j) (s\<lparr>stream := CHR '';'' # body\<rparr>)"
      by (rule READ_blanks[OF ok])
    also have "\<dots> = READ cfg (Suc j) (s\<lparr>stream := []\<rparr>)"
      by (rule READ_eat_cong) (simp add: eat_line_comment_eof[OF body] eat_Nil)
    finally show ?thesis unfolding test_read_def using j by (simp add: READ_eof)
  qed
  have c: "test_read cfg (s\<lparr>stream := render_blanks bs @ ''#!'' @ body\<rparr>) =
        Return EOS (s\<lparr>stream := []\<rparr>)"
    if ok: "list_all blank_ok bs" and body: "CHR 0x0A \<notin> set body"
  proof -
    let ?m = "2 * length (render_blanks bs @ ''#!'' @ body) + 1"
    obtain j where j: "?m = ?k + Suc (Suc j)"
    proof -
      have "?k + 2 \<le> ?m" using retries_le_length[of bs] by simp
      then have "?m = ?k + Suc (Suc (?m - ?k - 2))" by simp
      then show ?thesis using that by blast
    qed
    have "READ cfg (?k + Suc (Suc j)) (s\<lparr>stream := render_blanks bs @ ''#!'' @ body\<rparr>) =
          READ cfg (Suc (Suc j)) (s\<lparr>stream := ''#!'' @ body\<rparr>)"
      by (rule READ_blanks[OF ok])
    also have "\<dots> = READ cfg (Suc j) (s\<lparr>stream := []\<rparr>)"
      by (simp add: READ_shebang drop_line_eof[OF body])
    finally show ?thesis unfolding test_read_def using j by (simp add: READ_eof)
  qed
  show ?thesis using a b c by (simp add: test_read_def READ_eof)
qed

theorem end_of_stream_witness:
  "test_read (test_host True True)
     (initial (''  ; a comment'' @ [CHR 0x0A] @ ''#| block #| nested |# |#'' @ [CHR 0x09])) =
     Return EOS (initial [])
   \<and> test_read (test_host True True) (initial []) = Return EOS (initial [])"
proof -
  let ?bs = "[White (CHR '' ''), White (CHR '' ''), Line '' a comment'',
     Block (map Plain '' block '' @ [Nested (map Plain '' nested '')] @ [Plain (CHR '' '')]),
     White (CHR 0x09)]"
  have ok: "list_all blank_ok ?bs" by (simp add: isspace_def)
  have r: "render_blanks ?bs = ''  ; a comment'' @ [CHR 0x0A] @ ''#| block #| nested |# |#'' @ [CHR 0x09]"
    by (simp add: render_blanks_def)
  from end_of_stream[where bs="?bs" and cfg="test_host True True" and s="initial []"] ok r
  show ?thesis by (simp add: initial_def)
qed

text \<open>
  C7. In a list, the end of the input before the terminator raises "eos in list"
  (the spec's UnexpectedEndOfInput), and a dot with no element before it raises
  "expected something before '.' in list" (the spec's MalformedDottedList). The call
  aborts: it returns no value.
\<close>

theorem list_failures:
  "test_read (test_host ltr sc) (initial ''(1 2'') = Error Eos_in_list
   \<and> test_read (test_host ltr sc) (initial ''(. 1)'') = Error Expected_something_before_dot"
  by code_simp

text \<open>
  C10. At an input that is the single character \<^verbatim>\<open>'\<close>, \<^verbatim>\<open>`\<close> or \<^verbatim>\<open>,\<close> the nested call
  returns \<open>EOS\<close> and the reader raises no error: it returns the list of the symbol and
  \<open>EOS\<close>, two pairs ending in \<open>NIL\<close>.
\<close>

theorem quote_at_end_of_input:
  "test_read (test_host ltr sc) (initial [CHR 0x27]) =
     Return (PairPtr 1)
       \<lparr>stream = [], pairs = [(EOS, NIL), (SymPtr 1, PairPtr 0)], strings = [],
          symbols = [''.'', ''quote'']\<rparr>
   \<and> test_read (test_host ltr sc) (initial [CHR 0x60]) =
     Return (PairPtr 1)
       \<lparr>stream = [], pairs = [(EOS, NIL), (SymPtr 1, PairPtr 0)], strings = [],
          symbols = [''.'', ''quasiquote'']\<rparr>
   \<and> test_read (test_host ltr sc) (initial '','') =
     Return (PairPtr 1)
       \<lparr>stream = [], pairs = [(EOS, NIL), (SymPtr 1, PairPtr 0)], strings = [],
          symbols = [''.'', ''unquote'']\<rparr>"
  by (cases ltr; simp only: ; code_simp)

subsection \<open>What a call leaves unchanged\<close>

lemma grows_from_refl [simp]: "grows_from b s s"
  by (simp add: grows_from_def)

lemma grows_from_trans: "grows_from b s s1 \<Longrightarrow> grows_from b s1 s2 \<Longrightarrow> grows_from b s s2"
  by (auto simp: grows_from_def intro: prefix_order.trans)

lemma grows_from_le: "grows_from b s s' \<Longrightarrow> b' \<le> b \<Longrightarrow> grows_from b' s s'"
proof -
  assume g: "grows_from b s s'" and le: "b' \<le> b"
  then have "take b' (take b (pairs s')) = take b' (take b (pairs s))"
    by (simp add: grows_from_def)
  with le have "take b' (pairs s') = take b' (pairs s)" by (simp add: min_absorb1)
  with g show ?thesis by (simp add: grows_from_def)
qed

lemma grows_from_stream:
  "length cs \<le> length (stream s) \<Longrightarrow> grows_from b s (s\<lparr>stream := cs\<rparr>)"
  by (simp add: grows_from_def)

lemma grows_from_stream':
  "grows_from b s s' \<Longrightarrow> length cs \<le> length (stream s') \<Longrightarrow> grows_from b s (s'\<lparr>stream := cs\<rparr>)"
  by (simp add: grows_from_def)

lemma grows_from_string_2_symbol:
  "string_2_symbol t s = (v, s') \<Longrightarrow> grows_from b s s'"
  using string_2_symbol_result(2)[of t s v s'] by (auto simp: grows_from_def)

lemma grows_from_make_string: "make_string t s = (v, s') \<Longrightarrow> grows_from b s s'"
  by (auto simp: make_string_def grows_from_def)

lemma grows_from_cons:
  "cons x y s = (p, s') \<Longrightarrow> b \<le> length (pairs s) \<Longrightarrow> grows_from b s s'"
  by (auto simp: cons_def grows_from_def)

lemma grows_from_set_cdr:
  "set_cdr (PairPtr i) v s = Some s' \<Longrightarrow> b \<le> i \<Longrightarrow> grows_from b s s'"
  by (auto simp: grows_from_def split: if_splits)

lemma grows_from_read_number:
  assumes "read_number cfg c k radix s = Return v s'"
  shows "grows_from b s s'"
proof -
  let ?s1 = "s\<lparr>stream := dropWhile (\<lambda>x. \<not> macro_terminating_charQ (Some x)) (stream s)\<rparr>"
  let ?buf = "c # takeWhile (\<lambda>x. \<not> macro_terminating_charQ (Some x)) (stream s)"
  obtain str s2 where m: "make_string (drop k ?buf) ?s1 = (str, s2)" by fastforce
  obtain sym s3 where y: "string_2_symbol (drop k ?buf) s2 = (sym, s3)" by fastforce
  have g1: "grows_from b s ?s1" by (rule grows_from_stream) (simp add: length_dropWhile_le)
  note g2 = grows_from_trans[OF g1 grows_from_make_string[OF m]]
  note g3 = grows_from_trans[OF g2 grows_from_string_2_symbol[OF y]]
  from assms m y have "s' = s2 \<or> s' = s3"
    by (auto simp: read_number_def Let_def split: if_splits)
  with g2 g3 show ?thesis by auto
qed

lemma grows_from_read_char:
  assumes "read_char cfg s = Return v s'"
  shows "grows_from b s s'"
proof (cases "stream s")
  case Nil
  with assms show ?thesis by (simp add: read_char_def)
next
  case (Cons c cs)
  with assms show ?thesis
    by (auto simp: read_char_def Let_def grows_from_def split: if_splits)
qed

lemma grows_from_quote_form:
  assumes rd: "\<And>s v s'. rd s = Return v s' \<Longrightarrow> grows_from (length (pairs s)) s s'"
    and q: "quote_form cfg name rd s = Return v s'"
  shows "grows_from (length (pairs s)) s s'"
proof (cases "args_left_to_right cfg")
  case True
  obtain sym s1 where y: "SYMBOL name s = (sym, s1)" by fastforce
  with q True obtain x s2 where r: "rd s1 = Return x s2"
    by (auto simp: quote_form_def split: result.splits)
  obtain p s3 where c1: "cons x NIL s2 = (p, s3)" by fastforce
  obtain p' s4 where c2: "cons sym p s3 = (p', s4)" by fastforce
  from q True y r c1 c2 have s': "s' = s4" by (simp add: quote_form_def)
  let ?b = "length (pairs s)"
  have g1: "grows_from ?b s s1" using y by (simp add: SYMBOL_def grows_from_string_2_symbol)
  have p1: "length (pairs s1) = ?b" using y
    by (auto simp: SYMBOL_def string_2_symbol_def Let_def split: if_splits)
  from rd[OF r] p1 have g2: "grows_from ?b s1 s2" by simp
  then have l2: "?b \<le> length (pairs s2)" using p1 by (simp add: grows_from_def)
  have g3: "grows_from ?b s2 s3" by (rule grows_from_cons[OF c1 l2])
  then have l3: "?b \<le> length (pairs s3)" using l2 by (simp add: grows_from_def)
  have g4: "grows_from ?b s3 s4" by (rule grows_from_cons[OF c2 l3])
  show ?thesis unfolding s'
    by (rule grows_from_trans[OF grows_from_trans[OF grows_from_trans[OF g1 g2] g3] g4])
next
  case False
  with q obtain x s1 where r: "rd s = Return x s1"
    by (auto simp: quote_form_def split: result.splits)
  obtain p s2 where c1: "cons x NIL s1 = (p, s2)" by fastforce
  obtain sym s3 where y: "SYMBOL name s2 = (sym, s3)" by fastforce
  obtain p' s4 where c2: "cons sym p s3 = (p', s4)" by fastforce
  from q False y r c1 c2 have s': "s' = s4" by (simp add: quote_form_def)
  let ?b = "length (pairs s)"
  from rd[OF r] have g1: "grows_from ?b s s1" .
  then have l1: "?b \<le> length (pairs s1)" by (simp add: grows_from_def)
  have g2: "grows_from ?b s1 s2" by (rule grows_from_cons[OF c1 l1])
  then have l2: "?b \<le> length (pairs s2)" using l1 by (simp add: grows_from_def)
  have g3: "grows_from ?b s2 s3" using y by (simp add: SYMBOL_def grows_from_string_2_symbol)
  then have l3: "?b \<le> length (pairs s3)" using l2 by (simp add: grows_from_def)
  have g4: "grows_from ?b s3 s4" by (rule grows_from_cons[OF c2 l3])
  show ?thesis unfolding s'
    by (rule grows_from_trans[OF grows_from_trans[OF grows_from_trans[OF g1 g2] g3] g4])
qed

lemma length_hash_again: "length (hash_again cs) \<le> length cs"
  by (induction cs) auto

lemma block_comment_length: "block_comment l cs = (l', cs') \<Longrightarrow> length cs' \<le> length cs"
proof (induction l cs arbitrary: l' cs' rule: block_comment.induct)
  case (1 cs)
  then show ?case by simp
next
  case (2 l)
  then show ?case by simp
next
  case (3 l c cs)
  show ?case
  proof (cases "c = CHR ''|'' \<and> PEEKC cs = Some (CHR ''#'')")
    case True
    with "3.prems" have "block_comment l (tl cs) = (l', cs')" by (simp add: block_comment.simps(3))
    from "3.IH"(1)[OF True this] show ?thesis by simp
  next
    case False
    show ?thesis
    proof (cases "c = CHR ''#'' \<and> PEEKC cs = Some (CHR ''|'')")
      case True
      with False "3.prems" have "block_comment (Suc (Suc l)) (tl cs) = (l', cs')"
        by (auto simp add: block_comment.simps(3) split: if_splits)
      from "3.IH"(2)[OF False True this] show ?thesis by simp
    next
      case f2: False
      with False "3.prems" have "block_comment (Suc l) cs = (l', cs')"
        by (auto simp add: block_comment.simps(3) split: if_splits)
      from "3.IH"(3)[OF False f2 this] show ?thesis by simp
    qed
  qed
qed

lemma read_string_length:
  "read_string esc buf cs = Some (b, cs') \<Longrightarrow> length cs' \<le> length cs"
proof (induction cs arbitrary: esc buf)
  case Nil
  then show ?case by simp
next
  case (Cons c cs)
  show ?case
  proof (cases "\<not> esc \<and> c = CHR 0x22")
    case True
    with Cons.prems show ?thesis by simp
  next
    case False
    with Cons.prems have "read_string (c = CHR 0x5C) (buf @ [c]) cs = Some (b, cs')" by auto
    from Cons.IH[OF this] show ?thesis by simp
  qed
qed

lemma eat_Some_Cons:
  assumes "eat_whitespace_peekchar cs = (Some c, cs')"
  shows "\<exists>r. cs' = c # r" and "length (tl cs') < length cs"
proof -
  from eat_result[OF assms] have p: "Some c = PEEKC cs'" and l: "length cs' \<le> length cs" by simp_all
  from p show "\<exists>r. cs' = c # r" by (cases cs') simp_all
  then show "length (tl cs') < length cs" using l by auto
qed

lemma SYMBOL_DOT_grows: "SYMBOL_DOT s = (d, s') \<Longrightarrow> grows_from b s s'"
  by (simp add: SYMBOL_DOT_def grows_from_string_2_symbol)

text \<open>
  What a call of the reader leaves: the pairs, strings and symbols that were there are
  there unchanged, and the input has not grown. In the loop of a list the pairs made
  before the loop are unchanged: \<^verbatim>\<open>lc\<close> is a pair made in the loop.
\<close>

lemma READ_grows_aux:
  "(\<forall>s v s'. READ cfg n s = Return v s' \<longrightarrow>
       grows_from (length (pairs s)) s s'
       \<and> (fst (eat_whitespace_peekchar (stream s)) \<noteq> None \<longrightarrow>
            length (stream s') < length (stream s)))
   \<and> (\<forall>t l lc s v s' b. READ_list cfg n t l lc s = Return v s' \<longrightarrow>
       b \<le> length (pairs s) \<longrightarrow> (lc = NIL \<or> (\<exists>i. lc = PairPtr i \<and> b \<le> i)) \<longrightarrow>
       grows_from b s s')"
proof (induction n)
  case 0
  show ?case by (simp add: READ.simps(1) READ_list.simps(1))
next
  case (Suc n)
  then have IH_R: "\<And>s v s'. READ cfg n s = Return v s' \<Longrightarrow> grows_from (length (pairs s)) s s'"
    and IH_L: "\<And>t l lc s v s' b. READ_list cfg n t l lc s = Return v s' \<Longrightarrow>
       b \<le> length (pairs s) \<Longrightarrow> lc = NIL \<or> (\<exists>i. lc = PairPtr i \<and> b \<le> i) \<Longrightarrow>
       grows_from b s s'"
    by blast+
  have stepR: "grows_from b s0 s2"
    if "READ cfg n s1 = Return v' s2" "grows_from b s0 s1" "b \<le> length (pairs s0)"
    for b s0 s1 s2 v'
  proof -
    from that(2,3) have "b \<le> length (pairs s1)" by (simp add: grows_from_def)
    from grows_from_le[OF IH_R[OF that(1)] this] that(2) show ?thesis
      by (rule grows_from_trans[rotated])
  qed
  have R: "grows_from (length (pairs s)) s s'
       \<and> (fst (eat_whitespace_peekchar (stream s)) \<noteq> None \<longrightarrow>
            length (stream s') < length (stream s))"
    if asm: "READ cfg (Suc n) s = Return v s'" for s v s'
  proof -
    let ?B = "length (pairs s)"
    obtain c cs where e: "eat_whitespace_peekchar (stream s) = (c, cs)" by fastforce
    show ?thesis
    proof (cases c)
      case None
      with asm e have "s' = s\<lparr>stream := cs\<rparr>" by (simp add: READ.simps(2))
      with eat_result[OF e] None e show ?thesis by (simp add: grows_from_def)
    next
      case (Some ch)
      let ?s0 = "s\<lparr>stream := tl cs\<rparr>"
      from eat_Some_Cons[OF e[unfolded Some]] have lt: "length (tl cs) < length (stream s)" by simp
      have shrink: "grows_from ?B ?s0 (?s0\<lparr>stream := X\<rparr>)" if "length X \<le> length (tl cs)" for X
        using that by (simp add: grows_from_def)
      have B0: "?B \<le> length (pairs ?s0)" by simp
      from asm e Some have body: "READ cfg (Suc n) s = Return v s'" by simp
      have D: "grows_from ?B ?s0 s'"
      proof -
        consider (quote) "ch = CHR 0x27" | (quasi) "ch = CHR 0x60" | (comma) "ch = CHR '',''"
          | (bracket) "ch = CHR ''[''" | (paren) "ch = CHR ''(''" | (hash) "ch = CHR ''#''"
          | (string) "ch = CHR 0x22"
          | (other) "ch \<notin> {CHR 0x27, CHR 0x60, CHR '','', CHR ''['', CHR ''('', CHR ''#'', CHR 0x22}"
          by blast
        then show ?thesis
        proof cases
          case quote
          with asm e Some have "quote_form cfg ''quote'' (READ cfg n) ?s0 = Return v s'"
            by (simp add: READ.simps(2))
          from grows_from_quote_form[where rd="READ cfg n", OF IH_R this] show ?thesis by simp
        next
          case quasi
          with asm e Some have "quote_form cfg ''quasiquote'' (READ cfg n) ?s0 = Return v s'"
            by (simp add: READ.simps(2))
          from grows_from_quote_form[where rd="READ cfg n", OF IH_R this] show ?thesis by simp
        next
          case comma
          show ?thesis
          proof (cases "PEEKC (tl cs) = Some (CHR ''@'')")
            case True
            with comma asm e Some
            have "quote_form cfg ''unquote_splicing'' (READ cfg n) (?s0\<lparr>stream := tl (tl cs)\<rparr>) = Return v s'"
              by (simp add: READ.simps(2))
            from grows_from_quote_form[where rd="READ cfg n", OF IH_R this]
            have g: "grows_from ?B (?s0\<lparr>stream := tl (tl cs)\<rparr>) s'" by simp
            have "length (tl (tl cs)) \<le> length (tl cs)" by simp
            from grows_from_trans[OF shrink[OF this] g] show ?thesis .
          next
            case False
            with comma asm e Some have "quote_form cfg ''unquote'' (READ cfg n) ?s0 = Return v s'"
              by (simp add: READ.simps(2))
            from grows_from_quote_form[where rd="READ cfg n", OF IH_R this] show ?thesis by simp
          qed
        next
          case bracket
          with asm e Some have "READ_list cfg n (CHR '']'') NIL NIL ?s0 = Return v s'"
            by (simp add: READ.simps(2))
          from IH_L[OF this, of ?B] show ?thesis by simp
        next
          case paren
          with asm e Some have "READ_list cfg n (CHR '')'') NIL NIL ?s0 = Return v s'"
            by (simp add: READ.simps(2))
          from IH_L[OF this, of ?B] show ?thesis by simp
        next
          case hash
          obtain h cs3 where h: "hash_again (tl cs) = h # cs3"
            using asm e Some hash by (cases "hash_again (tl cs)") (simp_all add: READ.simps(2))
          from length_hash_again[of "tl cs"] h have l3: "length cs3 < length (tl cs)" by simp
          from asm e Some hash h have b:
            "(if h = CHR ''!'' then
                   READ cfg n (?s0\<lparr>stream := dropWhile (\<lambda>c. c \<noteq> CHR 0x0A) cs3\<rparr>)
                 else if h = CHR ''|'' then
                   (case block_comment 1 cs3 of
                      (0, cs4) \<Rightarrow> READ cfg n (?s0\<lparr>stream := cs4\<rparr>)
                    | (Suc level, cs4) \<Rightarrow> Error Eos_inside_comment)
                 else if h = CHR '';'' then
                   (case READ cfg n (?s0\<lparr>stream := cs3\<rparr>) of
                      Return x s1 \<Rightarrow> READ cfg n s1
                    | Error e \<Rightarrow> Error e
                    | Out_of_fuel \<Rightarrow> Out_of_fuel)
                 else if h = CHR ''('' then
                   (case READ cfg n (?s0\<lparr>stream := h # cs3\<rparr>) of
                      Return x s1 \<Rightarrow> READ cfg n s1
                    | Error e \<Rightarrow> Error e
                    | Out_of_fuel \<Rightarrow> Out_of_fuel)
                 else if h = CHR 0x5C then read_char cfg (?s0\<lparr>stream := cs3\<rparr>)
                 else if h = CHR ''f'' \<or> h = CHR ''F'' then Return F (?s0\<lparr>stream := cs3\<rparr>)
                 else if h = CHR ''t'' \<or> h = CHR ''T'' then Return T (?s0\<lparr>stream := cs3\<rparr>)
                 else if h = CHR ''u'' \<or> h = CHR ''U'' then Return U (?s0\<lparr>stream := cs3\<rparr>)
                 else if h = CHR ''#'' then
                   (case E cfg of
                      Some e \<Rightarrow> Return e (?s0\<lparr>stream := cs3\<rparr>)
                    | None \<Rightarrow> Error (Bad_sequence h))
                 else
                   (case radix_letter h of
                      Some radix \<Rightarrow> read_number cfg h 1 radix (?s0\<lparr>stream := cs3\<rparr>)
                    | None \<Rightarrow> Error (Bad_sequence h))) = Return v s'"
            by (simp add: READ.simps(2) cong: if_cong prod.case_cong nat.case_cong option.case_cong)
          have sh3: "grows_from ?B ?s0 (?s0\<lparr>stream := cs3\<rparr>)"
            using l3 by (intro shrink) simp
          consider (bang) "h = CHR ''!''" | (bar) "h = CHR ''|''" | (semi) "h = CHR '';''"
            | (vec) "h = CHR ''(''" | (chr) "h = CHR 0x5C"
            | (rest) "h \<notin> {CHR ''!'', CHR ''|'', CHR '';'', CHR ''('', CHR 0x5C}"
            by blast
          then show ?thesis
          proof cases
            case bang
            with b have r: "READ cfg n (?s0\<lparr>stream := dropWhile (\<lambda>c. c \<noteq> CHR 0x0A) cs3\<rparr>) = Return v s'"
              by simp
            have "length (dropWhile (\<lambda>c. c \<noteq> CHR 0x0A) cs3) \<le> length (tl cs)"
              using l3 length_dropWhile_le[of "\<lambda>c. c \<noteq> CHR 0x0A" cs3] by simp
            from stepR[OF r shrink[OF this] B0] show ?thesis .
          next
            case bar
            obtain l4 cs4 where bc: "block_comment 1 cs3 = (l4, cs4)" by fastforce
            with bar b have l4: "l4 = 0" and r: "READ cfg n (?s0\<lparr>stream := cs4\<rparr>) = Return v s'"
              by (cases l4; simp)+
            from block_comment_length[OF bc] l3 have "length cs4 \<le> length (tl cs)" by simp
            from stepR[OF r shrink[OF this] B0] show ?thesis .
          next
            case semi
            with b obtain x s1 where r1: "READ cfg n (?s0\<lparr>stream := cs3\<rparr>) = Return x s1"
              and r2: "READ cfg n s1 = Return v s'"
              by (auto split: result.splits)
            from stepR[OF r2 stepR[OF r1 sh3 B0] B0] show ?thesis .
          next
            case vec
            with b obtain x s1 where r1: "READ cfg n (?s0\<lparr>stream := h # cs3\<rparr>) = Return x s1"
              and r2: "READ cfg n s1 = Return v s'"
              by (auto split: result.splits)
            have "length (h # cs3) \<le> length (tl cs)" using l3 by simp
            from stepR[OF r2 stepR[OF r1 shrink[OF this] B0] B0] show ?thesis .
          next
            case chr
            with b have "read_char cfg (?s0\<lparr>stream := cs3\<rparr>) = Return v s'" by simp
            from grows_from_trans[OF sh3 grows_from_read_char[OF this]] show ?thesis .
          next
            case rest
            with b have "s' = ?s0\<lparr>stream := cs3\<rparr>
               \<or> (\<exists>radix. read_number cfg h 1 radix (?s0\<lparr>stream := cs3\<rparr>) = Return v s')"
              by (auto split: if_splits option.splits)
            with sh3 show ?thesis
              by (auto intro: grows_from_trans[OF sh3 grows_from_read_number])
          qed
        next
          case string
          with asm e Some obtain buf cs1 where rs: "read_string False [] (tl cs) = Some (buf, cs1)"
            and m: "make_string buf (?s0\<lparr>stream := cs1\<rparr>) = (v, s')"
            by (auto simp: READ.simps(2) split: option.splits prod.splits)
          from read_string_length[OF rs] have "grows_from ?B ?s0 (?s0\<lparr>stream := cs1\<rparr>)"
            by (rule shrink)
          from grows_from_trans[OF this grows_from_make_string[OF m]] show ?thesis .
        next
          case other
          with asm e Some have "read_number cfg ch 0 10 ?s0 = Return v s'"
            by (auto simp: READ.simps(2) Let_def split: if_splits)
          from grows_from_read_number[OF this] show ?thesis .
        qed
      qed
      have "grows_from ?B s ?s0" using lt by (simp add: grows_from_def)
      from grows_from_trans[OF this D] have G: "grows_from ?B s s'" .
      from D have "length (stream s') \<le> length (tl cs)" by (simp add: grows_from_def)
      with lt G show ?thesis by simp
    qed
  qed
  have L: "grows_from b s s'"
    if asm: "READ_list cfg (Suc n) t l lc s = Return v s'" and b: "b \<le> length (pairs s)"
      and lc: "lc = NIL \<or> (\<exists>i. lc = PairPtr i \<and> b \<le> i)" for t l lc s v s' b
  proof -
    obtain c cs where e: "eat_whitespace_peekchar (stream s) = (c, cs)" by fastforce
    from asm e obtain ch where Some: "c = Some ch"
      by (cases c) (simp_all add: READ_list.simps(2))
    from eat_result[OF e] have lcs: "length cs \<le> length (stream s)" by simp
    show ?thesis
    proof (cases "ch = t")
      case True
      with asm e Some have "s' = s\<lparr>stream := tl cs\<rparr>" by (simp add: READ_list.simps(2))
      with lcs show ?thesis by (simp add: grows_from_def)
    next
      case False
      with asm e Some obtain x s1 where r1: "READ cfg n (s\<lparr>stream := cs\<rparr>) = Return x s1"
        by (auto simp: READ_list.simps(2) split: result.splits)
      obtain dot s2 where d: "SYMBOL_DOT s1 = (dot, s2)" by fastforce
      have g0: "grows_from b s (s\<lparr>stream := cs\<rparr>)" using lcs by (simp add: grows_from_def)
      have g1: "grows_from b s s1" by (rule stepR[OF r1 g0 b])
      have g2: "grows_from b s s2" by (rule grows_from_trans[OF g1 SYMBOL_DOT_grows[OF d]])
      show ?thesis
      proof (cases "x = dot")
        case True
        with asm e Some False r1 d obtain dd s3 s4 c' cs' where r2: "READ cfg n s2 = Return dd s3"
          and sc: "set_cdr lc dd s3 = Some s4"
          and e': "eat_whitespace_peekchar (stream s4) = (Some c', cs')"
          and s': "s' = s4\<lparr>stream := tl cs'\<rparr>"
          by (auto simp: READ_list.simps(2) split: result.splits if_splits option.splits prod.splits)
        from sc lc obtain i where i: "lc = PairPtr i" "b \<le> i" by (cases lc) (auto simp: NIL_def)
        have g3: "grows_from b s s3" by (rule stepR[OF r2 g2 b])
        have g4: "grows_from b s s4"
          by (rule grows_from_trans[OF g3 grows_from_set_cdr[OF sc[unfolded i(1)] i(2)]])
        from eat_result[OF e'] have "length (tl cs') \<le> length (stream s4)" by auto
        from grows_from_stream'[OF g4 this] show ?thesis unfolding s' .
      next
        case xd: False
        obtain y s3 where c3: "cons x NIL s2 = (y, s3)" by fastforce
        from g2 b have b2: "b \<le> length (pairs s2)" by (simp add: grows_from_def)
        have g3: "grows_from b s s3" by (rule grows_from_trans[OF g2 grows_from_cons[OF c3 b2]])
        from c3 b2 have y: "\<exists>i. y = PairPtr i \<and> b \<le> i" by (auto simp: cons_def)
        from g3 b have b3: "b \<le> length (pairs s3)" by (simp add: grows_from_def)
        show ?thesis
        proof (cases "lc = NIL")
          case True
          with asm e Some False r1 d xd c3 have rl: "READ_list cfg n t y y s3 = Return v s'"
            by (simp add: READ_list.simps(2))
          from IH_L[OF rl b3] y have "grows_from b s3 s'" by blast
          from grows_from_trans[OF g3 this] show ?thesis .
        next
          case nn: False
          with asm e Some False r1 d xd c3 obtain s4 where sc: "set_cdr lc y s3 = Some s4"
            and rl: "READ_list cfg n t l y s4 = Return v s'"
            by (auto simp: READ_list.simps(2) split: option.splits)
          from nn lc obtain i where i: "lc = PairPtr i" "b \<le> i" by auto
          have g4: "grows_from b s s4"
            by (rule grows_from_trans[OF g3 grows_from_set_cdr[OF sc[unfolded i(1)] i(2)]])
          from g4 b have b4: "b \<le> length (pairs s4)" by (simp add: grows_from_def)
          from IH_L[OF rl b4] y have "grows_from b s4 s'" by blast
          from grows_from_trans[OF g4 this] show ?thesis .
        qed
      qed
    qed
  qed
  from R L show ?case by blast
qed

lemma READ_grows:
  "READ cfg n s = Return v s' \<Longrightarrow> grows_from (length (pairs s)) s s'"
  using READ_grows_aux[of cfg n] by blast

lemma READ_consumes:
  "READ cfg n s = Return v s' \<Longrightarrow> fst (eat_whitespace_peekchar (stream s)) \<noteq> None \<Longrightarrow>
   length (stream s') < length (stream s)"
  using READ_grows_aux[of cfg n] by blast

lemma READ_list_grows:
  "READ_list cfg n t l lc s = Return v s' \<Longrightarrow> b \<le> length (pairs s) \<Longrightarrow>
   lc = NIL \<or> (\<exists>i. lc = PairPtr i \<and> b \<le> i) \<Longrightarrow> grows_from b s s'"
  using READ_grows_aux[of cfg n] by blast


lemma grows_from_symbol_named:
  "grows_from b s s' \<Longrightarrow> symbol_named s v name \<Longrightarrow> symbol_named s' v name"
  by (auto simp: grows_from_def prefix_def intro: symbol_named_append)

subsection \<open>The fuel of a call from outside is enough\<close>

lemma read_number_returns: "read_number cfg c k radix s \<noteq> Out_of_fuel"
  by (simp add: read_number_def Let_def make_string_def split: prod.splits)

lemma read_char_returns: "read_char cfg s \<noteq> Out_of_fuel"
  by (simp add: read_char_def Let_def split: list.splits)

lemma SYMBOL_stream: "stream (snd (SYMBOL name s)) = stream s"
  by (simp add: SYMBOL_def string_2_symbol_def Let_def)

lemma quote_form_returns:
  assumes "\<And>s1. stream s1 = stream s \<Longrightarrow> rd s1 \<noteq> Out_of_fuel"
  shows "quote_form cfg name rd s \<noteq> Out_of_fuel"
proof (cases "args_left_to_right cfg")
  case True
  from assms[of "snd (SYMBOL name s)"] have "rd (snd (SYMBOL name s)) \<noteq> Out_of_fuel"
    by (simp add: SYMBOL_stream)
  with True show ?thesis
    by (auto simp: quote_form_def cons_def split: prod.splits result.splits)
next
  case False
  from assms[of s] have "rd s \<noteq> Out_of_fuel" by simp
  with False show ?thesis
    by (auto simp: quote_form_def cons_def split: prod.splits result.splits)
qed

lemma READ_returns_aux:
  "(\<forall>s. 2 * length (stream s) < n \<longrightarrow> READ cfg n s \<noteq> Out_of_fuel)
   \<and> (\<forall>t l lc s. 2 * length (stream s) + 1 < n \<longrightarrow> READ_list cfg n t l lc s \<noteq> Out_of_fuel)"
proof (induction n)
  case 0
  show ?case by simp
next
  case (Suc n)
  then have IH_R: "\<And>s. 2 * length (stream s) < n \<Longrightarrow> READ cfg n s \<noteq> Out_of_fuel"
    and IH_L: "\<And>t l lc s. 2 * length (stream s) + 1 < n \<Longrightarrow>
                 READ_list cfg n t l lc s \<noteq> Out_of_fuel"
    by blast+
  have R: "READ cfg (Suc n) s \<noteq> Out_of_fuel" if n: "2 * length (stream s) < Suc n" for s
  proof -
    obtain c cs where e: "eat_whitespace_peekchar (stream s) = (c, cs)" by fastforce
    show ?thesis
    proof (cases c)
      case None
      with e show ?thesis by (simp add: READ.simps(2))
    next
      case (Some ch)
      let ?s0 = "s\<lparr>stream := tl cs\<rparr>"
      from eat_Some_Cons[OF e[unfolded Some]] have lt: "length (tl cs) < length (stream s)" by simp
      have R0: "READ cfg n s1 \<noteq> Out_of_fuel" if "length (stream s1) \<le> length (tl cs)" for s1
        using that lt n by (intro IH_R) simp
      have L0: "READ_list cfg n t l lc s1 \<noteq> Out_of_fuel"
        if "length (stream s1) \<le> length (tl cs)" for s1 t l lc
        using that lt n by (intro IH_L) simp
      have R2: "(case READ cfg n s1 of Return x s2 \<Rightarrow> READ cfg n s2 | Error e \<Rightarrow> Error e
                 | Out_of_fuel \<Rightarrow> Out_of_fuel) \<noteq> Out_of_fuel"
        if s1: "length (stream s1) \<le> length (tl cs)" for s1
      proof (cases "READ cfg n s1")
        case (Return x s2)
        from READ_grows[OF Return] s1 have "length (stream s2) \<le> length (tl cs)"
          by (simp add: grows_from_def)
        from R0[OF this] Return show ?thesis by simp
      next
        case (Error x)
        then show ?thesis by simp
      next
        case Out_of_fuel
        with R0[OF s1] show ?thesis by simp
      qed
      consider (quote) "ch = CHR 0x27" | (quasi) "ch = CHR 0x60" | (comma) "ch = CHR '',''"
        | (bracket) "ch = CHR ''[''" | (paren) "ch = CHR ''(''" | (hash) "ch = CHR ''#''"
        | (other) "ch \<notin> {CHR 0x27, CHR 0x60, CHR '','', CHR ''['', CHR ''('', CHR ''#''}"
        by blast
      then show ?thesis
      proof cases
        case quote
        have "quote_form cfg ''quote'' (READ cfg n) ?s0 \<noteq> Out_of_fuel"
          by (rule quote_form_returns) (simp add: R0)
        with quote e Some show ?thesis by (simp add: READ.simps(2))
      next
        case quasi
        have "quote_form cfg ''quasiquote'' (READ cfg n) ?s0 \<noteq> Out_of_fuel"
          by (rule quote_form_returns) (simp add: R0)
        with quasi e Some show ?thesis by (simp add: READ.simps(2))
      next
        case comma
        have "quote_form cfg ''unquote'' (READ cfg n) ?s0 \<noteq> Out_of_fuel"
          by (rule quote_form_returns) (simp add: R0)
        moreover have "quote_form cfg ''unquote_splicing'' (READ cfg n) (?s0\<lparr>stream := tl (tl cs)\<rparr>)
            \<noteq> Out_of_fuel"
          by (rule quote_form_returns) (simp add: R0)
        ultimately show ?thesis using comma e Some by (simp add: READ.simps(2) Let_def)
      next
        case bracket
        with e Some L0[of ?s0] show ?thesis by (simp add: READ.simps(2))
      next
        case paren
        with e Some L0[of ?s0] show ?thesis by (simp add: READ.simps(2))
      next
        case hash
        show ?thesis
        proof (cases "hash_again (tl cs)")
          case Nil
          with hash e Some show ?thesis by (simp add: READ.simps(2))
        next
          case (Cons h cs3)
          from length_hash_again[of "tl cs"] Cons have l3: "length cs3 < length (tl cs)" by simp
          have bang: "READ cfg n (s\<lparr>stream := dropWhile (\<lambda>c. c \<noteq> CHR 0x0A) cs3\<rparr>) \<noteq> Out_of_fuel"
            using l3 length_dropWhile_le[of "\<lambda>c. c \<noteq> CHR 0x0A" cs3] by (intro R0) simp
          have bar: "(case block_comment 1 cs3 of
                      (0, cs4) \<Rightarrow> READ cfg n (s\<lparr>stream := cs4\<rparr>)
                    | (Suc level, cs4) \<Rightarrow> Error Eos_inside_comment) \<noteq> Out_of_fuel"
          proof -
            obtain l4 cs4 where bc: "block_comment 1 cs3 = (l4, cs4)" by fastforce
            from block_comment_length[OF bc] l3 have "length cs4 \<le> length (tl cs)" by simp
            from R0[of "s\<lparr>stream := cs4\<rparr>"] this bc show ?thesis by (cases l4) simp_all
          qed
          have semi: "(case READ cfg n (s\<lparr>stream := cs3\<rparr>) of Return x s2 \<Rightarrow> READ cfg n s2
                 | Error e \<Rightarrow> Error e | Out_of_fuel \<Rightarrow> Out_of_fuel) \<noteq> Out_of_fuel"
            using l3 by (intro R2) simp
          have vec: "(case READ cfg n (s\<lparr>stream := CHR ''('' # cs3\<rparr>) of Return x s2 \<Rightarrow> READ cfg n s2
                 | Error e \<Rightarrow> Error e | Out_of_fuel \<Rightarrow> Out_of_fuel) \<noteq> Out_of_fuel"
            using l3 by (intro R2) simp
          from hash e Some Cons bang bar semi vec show ?thesis
            by (simp add: READ.simps(2) Let_def read_char_returns read_number_returns
                split: option.splits)
        qed
      next
        case other
        with e Some show ?thesis
          by (auto simp: READ.simps(2) Let_def read_number_returns make_string_def
              split: option.splits prod.splits)
      qed
    qed
  qed
  have L: "READ_list cfg (Suc n) t l lc s \<noteq> Out_of_fuel"
    if n: "2 * length (stream s) + 1 < Suc n" for t l lc s
  proof -
    obtain c cs where e: "eat_whitespace_peekchar (stream s) = (c, cs)" by fastforce
    from eat_result[OF e] have lcs: "length cs \<le> length (stream s)"
      and idem: "eat_whitespace_peekchar cs = (c, cs)" by simp_all
    show ?thesis
    proof (cases c)
      case None
      with e show ?thesis by (simp add: READ_list.simps(2))
    next
      case (Some ch)
      have r0: "READ cfg n (s\<lparr>stream := cs\<rparr>) \<noteq> Out_of_fuel"
        using lcs n by (intro IH_R) simp
      show ?thesis
      proof (cases "READ cfg n (s\<lparr>stream := cs\<rparr>)")
        case (Return x s1)
        from READ_consumes[OF Return] idem Some have l1: "length (stream s1) < length cs" by simp
        obtain dot s2 where d: "SYMBOL_DOT s1 = (dot, s2)" by fastforce
        from d have st2: "stream s2 = stream s1"
          by (auto simp: SYMBOL_DOT_def string_2_symbol_def Let_def split: if_splits)
        have rb: "READ cfg n s2 \<noteq> Out_of_fuel"
          using l1 lcs n st2 by (intro IH_R) simp
        have ll: "READ_list cfg n t l' lc' s3 \<noteq> Out_of_fuel"
          if "stream s3 = stream s1" for l' lc' s3
          using l1 lcs n that by (intro IH_L) simp
        have sc: "stream s4 = stream s3" if "set_cdr p v s3 = Some s4" for p v s3 s4
          using that by (cases p) (auto split: if_splits)
        from e Some Return d rb show ?thesis
          by (auto simp: READ_list.simps(2) cons_def ll st2 dest: sc
              split: result.splits option.splits prod.splits)
      next
        case (Error x)
        with e Some show ?thesis by (simp add: READ_list.simps(2))
      next
        case Out_of_fuel
        with r0 show ?thesis by simp
      qed
    qed
  qed
  from R L show ?case by blast
qed

text \<open>A call from outside returns or raises an error: its fuel is never used up.\<close>

lemma test_read_returns: "test_read cfg s \<noteq> Out_of_fuel"
  using READ_returns_aux[of "2 * length (stream s) + 1" cfg] by (simp add: test_read_def)

subsection \<open>More fuel changes nothing\<close>

lemma quote_form_fuel:
  assumes q: "quote_form cfg name rd s \<noteq> Out_of_fuel"
    and rd: "\<And>s1. rd s1 \<noteq> Out_of_fuel \<Longrightarrow> rd' s1 = rd s1"
  shows "quote_form cfg name rd' s = quote_form cfg name rd s"
proof (cases "args_left_to_right cfg")
  case True
  obtain sym s1 where y: "SYMBOL name s = (sym, s1)" by fastforce
  from q True y have "rd s1 \<noteq> Out_of_fuel"
    by (auto simp: quote_form_def split: result.splits)
  from rd[OF this] True y show ?thesis by (simp add: quote_form_def)
next
  case False
  with q have "rd s \<noteq> Out_of_fuel"
    by (auto simp: quote_form_def split: result.splits)
  from rd[OF this] False show ?thesis by (simp add: quote_form_def)
qed

lemma READ_fuel_aux:
  "(\<forall>s. READ cfg n s \<noteq> Out_of_fuel \<longrightarrow> READ cfg (Suc n) s = READ cfg n s)
   \<and> (\<forall>t l lc s. READ_list cfg n t l lc s \<noteq> Out_of_fuel \<longrightarrow>
         READ_list cfg (Suc n) t l lc s = READ_list cfg n t l lc s)"
proof (induction n)
  case 0
  show ?case by (simp add: READ.simps(1) READ_list.simps(1))
next
  case (Suc n)
  then have IH_R: "\<And>s. READ cfg n s \<noteq> Out_of_fuel \<Longrightarrow> READ cfg (Suc n) s = READ cfg n s"
    and IH_L: "\<And>t l lc s. READ_list cfg n t l lc s \<noteq> Out_of_fuel \<Longrightarrow>
         READ_list cfg (Suc n) t l lc s = READ_list cfg n t l lc s"
    by blast+
  have twice: "(case READ cfg (Suc n) s1 of Return x s2 \<Rightarrow> READ cfg (Suc n) s2
                 | Error e \<Rightarrow> Error e | Out_of_fuel \<Rightarrow> Out_of_fuel) =
               (case READ cfg n s1 of Return x s2 \<Rightarrow> READ cfg n s2
                 | Error e \<Rightarrow> Error e | Out_of_fuel \<Rightarrow> Out_of_fuel)"
    if "(case READ cfg n s1 of Return x s2 \<Rightarrow> READ cfg n s2
                 | Error e \<Rightarrow> Error e | Out_of_fuel \<Rightarrow> Out_of_fuel) \<noteq> Out_of_fuel" for s1
    using that by (cases "READ cfg n s1") (simp_all add: IH_R)
  have R: "READ cfg (Suc (Suc n)) s = READ cfg (Suc n) s"
    if A: "READ cfg (Suc n) s \<noteq> Out_of_fuel" for s
  proof -
    obtain c cs where e: "eat_whitespace_peekchar (stream s) = (c, cs)" by fastforce
    note u = READ.simps(2)[of cfg n s] READ.simps(2)[of cfg "Suc n" s]
    show ?thesis
    proof (cases c)
      case None
      with e show ?thesis by (simp add: u)
    next
      case (Some ch)
      consider (quote) "ch = CHR 0x27" | (quasi) "ch = CHR 0x60" | (comma) "ch = CHR '',''"
        | (bracket) "ch = CHR ''[''" | (paren) "ch = CHR ''(''" | (hash) "ch = CHR ''#''"
        | (other) "ch \<notin> {CHR 0x27, CHR 0x60, CHR '','', CHR ''['', CHR ''('', CHR ''#''}"
        by blast
      then show ?thesis
      proof cases
        case quote
        with A e Some have "quote_form cfg ''quote'' (READ cfg n) (s\<lparr>stream := tl cs\<rparr>) \<noteq> Out_of_fuel"
          by (simp add: u)
        from quote_form_fuel[OF this IH_R] quote e Some show ?thesis
          by (simp add: u)
      next
        case quasi
        with A e Some have "quote_form cfg ''quasiquote'' (READ cfg n) (s\<lparr>stream := tl cs\<rparr>) \<noteq> Out_of_fuel"
          by (simp add: u)
        from quote_form_fuel[OF this IH_R] quasi e Some show ?thesis
          by (simp add: u)
      next
        case comma
        show ?thesis
        proof (cases "PEEKC (tl cs) = Some (CHR ''@'')")
          case True
          with comma A e Some
          have "quote_form cfg ''unquote_splicing'' (READ cfg n) (s\<lparr>stream := tl (tl cs)\<rparr>) \<noteq> Out_of_fuel"
            by (simp add: u)
          from quote_form_fuel[OF this IH_R] True comma e Some show ?thesis
            by (simp add: u)
        next
          case False
          with comma A e Some
          have "quote_form cfg ''unquote'' (READ cfg n) (s\<lparr>stream := tl cs\<rparr>) \<noteq> Out_of_fuel"
            by (simp add: u)
          from quote_form_fuel[OF this IH_R] False comma e Some show ?thesis
            by (simp add: u)
        qed
      next
        case bracket
        with A e Some have "READ_list cfg n (CHR '']'') NIL NIL (s\<lparr>stream := tl cs\<rparr>) \<noteq> Out_of_fuel"
          by (simp add: u)
        from IH_L[OF this] bracket e Some show ?thesis by (simp add: u)
      next
        case paren
        with A e Some have "READ_list cfg n (CHR '')'') NIL NIL (s\<lparr>stream := tl cs\<rparr>) \<noteq> Out_of_fuel"
          by (simp add: u)
        from IH_L[OF this] paren e Some show ?thesis by (simp add: u)
      next
        case hash
        show ?thesis
        proof (cases "hash_again (tl cs)")
          case Nil
          with hash e Some show ?thesis by (simp add: u)
        next
          case (Cons h cs3)
          consider (bang) "h = CHR ''!''" | (bar) "h = CHR ''|''" | (semi) "h = CHR '';''"
            | (vec) "h = CHR ''(''"
            | (rest) "h \<notin> {CHR ''!'', CHR ''|'', CHR '';'', CHR ''(''}"
            by blast
          then show ?thesis
          proof cases
            case bang
            with A hash e Some Cons
            have "READ cfg n (s\<lparr>stream := dropWhile (\<lambda>c. c \<noteq> CHR 0x0A) cs3\<rparr>) \<noteq> Out_of_fuel"
              by (simp add: u)
            from IH_R[OF this] bang hash e Some Cons show ?thesis by (simp add: u)
          next
            case bar
            obtain l4 cs4 where bc: "block_comment 1 cs3 = (l4, cs4)" by fastforce
            show ?thesis
            proof (cases l4)
              case 0
              with A bar hash e Some Cons bc
              have "READ cfg n (s\<lparr>stream := cs4\<rparr>) \<noteq> Out_of_fuel"
                by (simp add: u)
              from IH_R[OF this] 0 bar hash e Some Cons bc show ?thesis
                by (simp add: u)
            next
              case (Suc k)
              with bar hash e Some Cons bc show ?thesis by (simp add: u)
            qed
          next
            case semi
            with A hash e Some Cons
            have "(case READ cfg n (s\<lparr>stream := cs3\<rparr>) of Return x s2 \<Rightarrow> READ cfg n s2
                 | Error e \<Rightarrow> Error e | Out_of_fuel \<Rightarrow> Out_of_fuel) \<noteq> Out_of_fuel"
              by (simp add: u)
            from twice[OF this] semi hash e Some Cons show ?thesis by (simp add: u)
          next
            case vec
            with A hash e Some Cons
            have "(case READ cfg n (s\<lparr>stream := CHR ''('' # cs3\<rparr>) of Return x s2 \<Rightarrow> READ cfg n s2
                 | Error e \<Rightarrow> Error e | Out_of_fuel \<Rightarrow> Out_of_fuel) \<noteq> Out_of_fuel"
              by (simp add: u)
            from twice[OF this] vec hash e Some Cons show ?thesis by (simp add: u)
          next
            case rest
            with hash e Some Cons show ?thesis by (simp add: u)
          qed
        qed
      next
        case other
        with e Some show ?thesis by (simp add: u)
      qed
    qed
  qed
  have L: "READ_list cfg (Suc (Suc n)) t l lc s = READ_list cfg (Suc n) t l lc s"
    if A: "READ_list cfg (Suc n) t l lc s \<noteq> Out_of_fuel" for t l lc s
  proof -
    obtain c cs where e: "eat_whitespace_peekchar (stream s) = (c, cs)" by fastforce
    note u = READ_list.simps(2)[of cfg n t l lc s] READ_list.simps(2)[of cfg "Suc n" t l lc s]
    note A' = A[unfolded u(1)]
    show ?thesis
    proof (cases c)
      case None
      with e show ?thesis unfolding u by simp
    next
      case (Some ch)
      show ?thesis
      proof (cases "ch = t")
        case True
        with e Some show ?thesis unfolding u by simp
      next
        case False
        from A' e Some False have r0: "READ cfg n (s\<lparr>stream := cs\<rparr>) \<noteq> Out_of_fuel"
          by auto
        note r0' = IH_R[OF r0]
        show ?thesis
        proof (cases "READ cfg n (s\<lparr>stream := cs\<rparr>)")
          case (Return x s1)
          obtain dot s2 where d: "SYMBOL_DOT s1 = (dot, s2)" by fastforce
          show ?thesis
          proof (cases "x = dot")
            case True
            show ?thesis
            proof (cases "lc = NIL")
              case True
              with \<open>x = dot\<close> e Some False Return r0' d show ?thesis unfolding u
                by simp
            next
              case nn: False
              with A' \<open>x = dot\<close> e Some False Return d have "READ cfg n s2 \<noteq> Out_of_fuel"
                by auto
              from IH_R[OF this] nn \<open>x = dot\<close> e Some False Return r0' d show ?thesis unfolding u
                by simp
            qed
          next
            case xd: False
            obtain y s3 where c3: "cons x NIL s2 = (y, s3)" by fastforce
            show ?thesis
            proof (cases "lc = NIL")
              case True
              with A' xd e Some False Return d c3
              have "READ_list cfg n t y y s3 \<noteq> Out_of_fuel"
                by simp
              from IH_L[OF this] True xd e Some False Return r0' d c3 show ?thesis unfolding u
                by simp
            next
              case nn: False
              show ?thesis
              proof (cases "set_cdr lc y s3")
                case None
                with nn xd e Some False Return r0' d c3 show ?thesis unfolding u
                  by simp
              next
                case (Some s4)
                with A' nn xd e \<open>c = Some ch\<close> False Return d c3
                have "READ_list cfg n t l y s4 \<noteq> Out_of_fuel"
                  by simp
                from IH_L[OF this] Some nn xd e \<open>c = Some ch\<close> False Return r0' d c3 show ?thesis unfolding u
                  by simp
              qed
            qed
          qed
        next
          case (Error x)
          with e Some False r0' show ?thesis unfolding u by simp
        next
          case Out_of_fuel
          with r0 show ?thesis by simp
        qed
      qed
    qed
  qed
  from R L show ?case by blast
qed

lemma READ_fuel_add: "READ cfg n s \<noteq> Out_of_fuel \<Longrightarrow> READ cfg (n + k) s = READ cfg n s"
proof (induction k)
  case 0
  then show ?case by simp
next
  case (Suc k)
  then have "READ cfg (n + k) s \<noteq> Out_of_fuel" by simp
  with READ_fuel_aux[of cfg "n + k"] Suc show ?case by simp
qed

lemma READ_fuel_le:
  "READ cfg n s \<noteq> Out_of_fuel \<Longrightarrow> n \<le> m \<Longrightarrow> READ cfg m s = READ cfg n s"
  using READ_fuel_add[of cfg n s "m - n"] by simp

text \<open>
  What a call from outside returns is what the reader returns with any fuel that is
  enough.
\<close>

lemma test_read_fuel: "READ cfg n s \<noteq> Out_of_fuel \<Longrightarrow> test_read cfg s = READ cfg n s"
proof -
  assume a: "READ cfg n s \<noteq> Out_of_fuel"
  let ?k = "2 * length (stream s) + 1"
  have b: "READ cfg ?k s \<noteq> Out_of_fuel" using test_read_returns[of cfg s] by (simp add: test_read_def)
  have "READ cfg (max n ?k) s = READ cfg n s" by (rule READ_fuel_le[OF a]) simp
  moreover have "READ cfg (max n ?k) s = READ cfg ?k s" by (rule READ_fuel_le[OF b]) simp
  ultimately show ?thesis by (simp add: test_read_def)
qed

lemma test_read_Return:
  "test_read cfg s = Return v s' \<Longrightarrow> \<exists>n. \<forall>m\<ge>n. READ cfg m s = Return v s'"
proof -
  assume a: "test_read cfg s = Return v s'"
  let ?k = "2 * length (stream s) + 1"
  from a have k: "READ cfg ?k s = Return v s'" by (simp add: test_read_def)
  then have "READ cfg m s = Return v s'" if "?k \<le> m" for m
    using READ_fuel_le[of cfg ?k s m] that by simp
  then show ?thesis by blast
qed

text \<open>
  So white space and comments, and an exactness prefix, change nothing in a call from
  outside either.
\<close>

lemma test_read_blanks:
  assumes "list_all blank_ok bs"
  shows "test_read cfg (s\<lparr>stream := render_blanks bs @ rest\<rparr>) = test_read cfg (s\<lparr>stream := rest\<rparr>)"
proof -
  let ?k = "2 * length rest + 1"
  have t: "test_read cfg (s\<lparr>stream := rest\<rparr>) = READ cfg ?k (s\<lparr>stream := rest\<rparr>)"
    by (simp add: test_read_def)
  have e: "READ cfg (sum_list (map retries bs) + ?k) (s\<lparr>stream := render_blanks bs @ rest\<rparr>) =
      READ cfg ?k (s\<lparr>stream := rest\<rparr>)"
    by (rule READ_blanks[OF assms])
  with t test_read_returns[of cfg "s\<lparr>stream := rest\<rparr>"]
  have "READ cfg (sum_list (map retries bs) + ?k) (s\<lparr>stream := render_blanks bs @ rest\<rparr>)
      \<noteq> Out_of_fuel" by simp
  from test_read_fuel[OF this] e t show ?thesis by simp
qed

lemma test_read_exactness:
  assumes "x \<in> set ''eEiI''"
  shows "test_read cfg (s\<lparr>stream := CHR ''#'' # x # r\<rparr>) =
         test_read cfg (s\<lparr>stream := CHR ''#'' # r\<rparr>)"
proof -
  let ?k = "2 * length (CHR ''#'' # r) + 1"
  have t: "test_read cfg (s\<lparr>stream := CHR ''#'' # r\<rparr>) = READ cfg ?k (s\<lparr>stream := CHR ''#'' # r\<rparr>)"
    by (simp add: test_read_def)
  have e: "READ cfg ?k (s\<lparr>stream := CHR ''#'' # x # r\<rparr>) = READ cfg ?k (s\<lparr>stream := CHR ''#'' # r\<rparr>)"
    by (rule READ_exactness[OF assms])
  with t test_read_returns[of cfg "s\<lparr>stream := CHR ''#'' # r\<rparr>"]
  have "READ cfg ?k (s\<lparr>stream := CHR ''#'' # x # r\<rparr>) \<noteq> Out_of_fuel" by simp
  from test_read_fuel[OF this] e t show ?thesis by simp
qed

subsection \<open>Comments and prefixes in a call from outside\<close>

text \<open>
  C8. Comments are passed over. Before a datum the reader skips white space, \<^verbatim>\<open>;\<close>
  comments, \<^verbatim>\<open>#!\<close> comments and block comments, nested ones too, and then reads what
  follows as if it stood first: a call from outside returns what it returns on the
  rest, and the reader does so with the fuel of the retries added. The loop of the
  block comment starts at level 1, goes up one level at \<^verbatim>\<open>#|\<close> and down one at
  \<^verbatim>\<open>|#\<close>, stops at level 0, and at the end of the input before that the reader
  raises "eos inside #| comment |#". So
  \<^verbatim>\<open>; comment\<close>, a newline and \<^verbatim>\<open>42\<close> read as the number 42, and
  \<^verbatim>\<open>#| a #| b |# c |# 7\<close> as the number 7.
\<close>

theorem comment_skipping:
  "(list_all blank_ok bs \<longrightarrow>
      test_read cfg (s\<lparr>stream := render_blanks bs @ rest\<rparr>) =
      test_read cfg (s\<lparr>stream := rest\<rparr>)
      \<and> READ cfg (sum_list (map retries bs) + n) (s\<lparr>stream := render_blanks bs @ rest\<rparr>) =
        READ cfg n (s\<lparr>stream := rest\<rparr>))
   \<and> READ cfg (Suc n) (s\<lparr>stream := ''#|'' @ rest\<rparr>) =
       (case block_comment 1 rest of
          (0, cs) \<Rightarrow> READ cfg n (s\<lparr>stream := cs\<rparr>)
        | (Suc level, cs) \<Rightarrow> Error Eos_inside_comment)
   \<and> block_comment (Suc l) (''#|'' @ rest) = block_comment (Suc (Suc l)) rest
   \<and> block_comment (Suc l) (''|#'' @ rest) = block_comment l rest
   \<and> block_comment 0 rest = (0, rest)
   \<and> (list_all plain_item items \<longrightarrow>
        block_comment (Suc l) (concat (map render_item items) @ ''|#'' @ rest) =
          block_comment l rest
        \<and> block_comment (Suc l) (concat (map render_item items)) = (Suc l, [])
        \<and> READ cfg (Suc n) (s\<lparr>stream := ''#|'' @ concat (map render_item items)\<rparr>) =
            Error Eos_inside_comment)
   \<and> test_read (test_host ltr sc) (initial (''; comment'' @ [CHR 0x0A] @ ''42'')) =
       Return (Imm (42 + 8192))
         \<lparr>stream = [], pairs = [], strings = [''42''], symbols = [''.'']\<rparr>
   \<and> test_read (test_host ltr sc) (initial ''#| a #| b |# c |# 7'') =
       Return (Imm (7 + 8192))
         \<lparr>stream = [], pairs = [], strings = [''7''], symbols = [''.'']\<rparr>"
proof -
  have items: "block_comment (Suc l) (concat (map render_item items)) = (Suc l, [])"
    if "list_all plain_item items"
    using block_comment_items[OF that, of l "[]"] by simp
  have closed: "block_comment (Suc l) (concat (map render_item items) @ ''|#'' @ rest) =
      block_comment l rest" if "list_all plain_item items"
    using block_comment_items[OF that, of l "''|#'' @ rest"] by (simp add: block_comment_close)
  have eos: "READ cfg (Suc n) (s\<lparr>stream := ''#|'' @ concat (map render_item items)\<rparr>) =
      Error Eos_inside_comment" if "list_all plain_item items"
    using block_comment_items[OF that, of 0 "[]"] by (simp add: READ_block_comment)
  have ex1: "test_read (test_host ltr sc) (initial (''; comment'' @ [CHR 0x0A] @ ''42'')) =
       Return (Imm (42 + 8192))
         \<lparr>stream = [], pairs = [], strings = [''42''], symbols = [''.'']\<rparr>"
    by code_simp
  have ex2: "test_read (test_host ltr sc) (initial ''#| a #| b |# c |# 7'') =
       Return (Imm (7 + 8192))
         \<lparr>stream = [], pairs = [], strings = [''7''], symbols = [''.'']\<rparr>"
    by code_simp
  show ?thesis
    using READ_blanks[where bs=bs and cfg=cfg and n=n and s=s and rest=rest]
      test_read_blanks[where bs=bs and cfg=cfg and s=s and rest=rest]
      READ_block_comment[where cfg=cfg and n=n and s=s and r=rest]
      items closed eos ex1 ex2
    by (simp add: block_comment_open block_comment_close)
qed

theorem comment_skipping_witness:
  "READ (test_host True True) 25 (initial (''; comment'' @ [CHR 0x0A] @ ''42'')) =
     READ (test_host True True) 25 (initial ''42'')
   \<and> READ (test_host True True) 39 (initial ''#| a #| b |# c |# 7'') =
     READ (test_host True True) 38 (initial ''7'')
   \<and> READ (test_host True True) 38 (initial ''7'') =
       Return (Imm (7 + 8192))
         \<lparr>stream = [], pairs = [], strings = [''7''], symbols = [''.'']\<rparr>"
proof -
  let ?b1 = "[Line '' comment'']"
  let ?b2 = "[Block [Plain (CHR '' ''), Plain (CHR ''a''), Plain (CHR '' ''),
                     Nested [Plain (CHR '' ''), Plain (CHR ''b''), Plain (CHR '' '')],
                     Plain (CHR '' ''), Plain (CHR ''c''), Plain (CHR '' '')],
              White (CHR '' '')]"
  have ok: "list_all blank_ok ?b1" "list_all blank_ok ?b2"
    by (simp_all add: isspace_def)
  have r: "render_blanks ?b1 @ ''42'' = ''; comment'' @ [CHR 0x0A] @ ''42''"
    "render_blanks ?b2 @ ''7'' = ''#| a #| b |# c |# 7''"
    by (simp_all add: render_blanks_def)
  have v: "READ (test_host True True) 38 (initial ''7'') =
       Return (Imm (7 + 8192))
         \<lparr>stream = [], pairs = [], strings = [''7''], symbols = [''.'']\<rparr>"
    by code_simp
  from comment_skipping[where bs="?b1" and cfg="test_host True True" and n=25
      and s="initial []" and rest="''42''"]
    comment_skipping[where bs="?b2" and cfg="test_host True True" and n=38
      and s="initial []" and rest="''7''"] ok r v
  show ?thesis
    by (simp add: initial_def)
qed

text \<open>
  C6. An exactness prefix is read and ignored: with \<^verbatim>\<open>e\<close>, \<^verbatim>\<open>E\<close>, \<^verbatim>\<open>i\<close> or \<^verbatim>\<open>I\<close> put
  right after the \<^verbatim>\<open>#\<close> of a text, the reader does what it does on the text itself: the
  same value and state, the same error, in a call from outside and with any fuel.
\<close>

theorem exactness_prefix:
  "x \<in> set ''eEiI'' \<Longrightarrow>
   test_read cfg (s\<lparr>stream := CHR ''#'' # x # r\<rparr>) =
     test_read cfg (s\<lparr>stream := CHR ''#'' # r\<rparr>)
   \<and> READ cfg n (s\<lparr>stream := CHR ''#'' # x # r\<rparr>) = READ cfg n (s\<lparr>stream := CHR ''#'' # r\<rparr>)"
  by (simp add: READ_exactness test_read_exactness)

theorem exactness_prefix_witness:
  "CHR ''e'' \<in> set ''eEiI''
   \<and> READ (test_host True True) 11 (initial ''#ex1F'') =
       READ (test_host True True) 11 (initial ''#x1F'')
   \<and> READ (test_host True True) 11 (initial ''#x1F'') =
       Return (Imm (31 + 8192))
         \<lparr>stream = [], pairs = [], strings = [''1F''], symbols = [''.'']\<rparr>"
proof -
  have v: "READ (test_host True True) 11 (initial ''#x1F'') =
       Return (Imm (31 + 8192))
         \<lparr>stream = [], pairs = [], strings = [''1F''], symbols = [''.'']\<rparr>"
    by code_simp
  from exactness_prefix[where x="CHR ''e''" and cfg="test_host True True" and n=11
      and s="initial []" and r="''x1F''"] v
  show ?thesis by (simp add: initial_def)
qed

text \<open>
  With the \<^verbatim>\<open>#\<close> of the text kept after the prefix, as in \<^verbatim>\<open>#e#f\<close>, the reader finds
  \<^verbatim>\<open>#\<close> where it dispatches and raises "bad sequence".
\<close>

theorem exactness_prefix_counterexample:
  "test_read (test_host True True) (initial ''#f'') =
     Return F \<lparr>stream = [], pairs = [], strings = [], symbols = [''.'']\<rparr>
   \<and> test_read (test_host True True) (initial (''#e'' @ ''#f'')) = Error (Bad_sequence (CHR ''#''))"
  by code_simp

subsection \<open>The steps of the list loop\<close>

lemma READ_list_close:
  "t = CHR '')'' \<or> t = CHR '']'' \<Longrightarrow>
   READ_list cfg (Suc n) t l lc (s\<lparr>stream := t # r\<rparr>) = Return l (s\<lparr>stream := r\<rparr>)"
  by (auto simp: READ_list.simps(2) eat_stop isspace_def)

lemma READ_list_spaces:
  "list_all isspace w \<Longrightarrow>
   READ_list cfg n t l lc (s\<lparr>stream := w @ cs\<rparr>) = READ_list cfg n t l lc (s\<lparr>stream := cs\<rparr>)"
  by (rule READ_list_eat_cong) (rule eat_spaces)

lemma READ_spaces:
  "list_all isspace w \<Longrightarrow> READ cfg n (s\<lparr>stream := w @ cs\<rparr>) = READ cfg n (s\<lparr>stream := cs\<rparr>)"
  by (rule READ_eat_cong) (rule eat_spaces)

text \<open>One turn of the loop that reads an element which is not the dot.\<close>

lemma READ_list_element:
  assumes e: "eat_whitespace_peekchar cs = (Some c, cs')" and c: "c \<noteq> t"
    and r: "READ cfg n (s\<lparr>stream := cs\<rparr>) = Return x s1"
    and d: "x \<noteq> fst (SYMBOL_DOT s1)"
  shows "READ_list cfg (Suc n) t l NIL (s\<lparr>stream := cs\<rparr>) =
           READ_list cfg n t (PairPtr (length (pairs s1))) (PairPtr (length (pairs s1)))
             ((snd (SYMBOL_DOT s1))\<lparr>pairs := pairs s1 @ [(x, NIL)]\<rparr>)"
    and "lc = PairPtr i \<Longrightarrow> i < length (pairs s1) \<Longrightarrow>
         READ_list cfg (Suc n) t l lc (s\<lparr>stream := cs\<rparr>) =
           READ_list cfg n t l (PairPtr (length (pairs s1)))
             ((snd (SYMBOL_DOT s1))\<lparr>pairs := (pairs s1 @ [(x, NIL)])
                [i := (fst (pairs s1 ! i), PairPtr (length (pairs s1)))]\<rparr>)"
proof -
  obtain dot s2 where sd: "SYMBOL_DOT s1 = (dot, s2)" by fastforce
  from sd have p2: "pairs s2 = pairs s1"
    by (auto simp: SYMBOL_DOT_def string_2_symbol_def Let_def split: if_splits)
  from READ_eat_cong[of cs cs' cfg n s] e eat_result[OF e] r
  have r': "READ cfg n (s\<lparr>stream := cs'\<rparr>) = Return x s1" by simp
  show "READ_list cfg (Suc n) t l NIL (s\<lparr>stream := cs\<rparr>) =
           READ_list cfg n t (PairPtr (length (pairs s1))) (PairPtr (length (pairs s1)))
             ((snd (SYMBOL_DOT s1))\<lparr>pairs := pairs s1 @ [(x, NIL)]\<rparr>)"
    using e c r' d sd p2 by (simp add: READ_list.simps(2) cons_def)
  show "READ_list cfg (Suc n) t l lc (s\<lparr>stream := cs\<rparr>) =
           READ_list cfg n t l (PairPtr (length (pairs s1)))
             ((snd (SYMBOL_DOT s1))\<lparr>pairs := (pairs s1 @ [(x, NIL)])
                [i := (fst (pairs s1 ! i), PairPtr (length (pairs s1)))]\<rparr>)"
    if "lc = PairPtr i" "i < length (pairs s1)"
    using e c r' d sd p2 that by (simp add: READ_list.simps(2) cons_def NIL_def nth_append)
qed

subsection \<open>Lists of symbols\<close>

lemma token_Cons: "token t \<Longrightarrow> \<exists>c body. t = c # body \<and> (token_start c \<or> 128 \<le> (of_char c :: nat))
    \<and> list_all (\<lambda>x. \<not> macro_terminating_charQ (Some x)) body"
  by (cases t) (simp_all add: token_def)

text \<open>Reading a symbol token: the symbol of its name, the token among the strings.\<close>

lemma READ_symbol_token:
  assumes tok: "symbol_token t" and r: "macro_terminating_charQ (PEEKC r)"
    and nil: "NIL_SYMBOL cfg = None"
  obtains x s1 where "\<And>n. READ cfg (Suc n) (s\<lparr>stream := t @ r\<rparr>) = Return x s1"
    and "symbol_named s1 x (c_str t)" and "stream s1 = r" and "pairs s1 = pairs s"
    and "strings s1 = strings s @ [t]" and "prefix (symbols s) (symbols s1)"
proof -
  from tok obtain c body where t: "t = c # body"
    and c: "token_start c \<or> 128 \<le> (of_char c :: nat)"
    and body: "list_all (\<lambda>x. \<not> macro_terminating_charQ (Some x)) body"
    using token_Cons[of t] by (auto simp: symbol_token_def)
  from tok have nn: "string_2_number (c # body) 10 = F" by (simp add: symbol_token_def t)
  let ?s0 = "s\<lparr>stream := r, strings := strings s @ [t]\<rparr>"
  obtain x s1 where y: "string_2_symbol t ?s0 = (x, s1)" by fastforce
  have "READ cfg (Suc n) (s\<lparr>stream := t @ r\<rparr>) = Return x s1" for n
    using c nn nil y by (simp add: t READ_token read_number_buffer[OF body r])
  moreover from tok have "fits_block (c_str t)" by (simp add: symbol_token_def)
  from string_2_symbol_result[OF y] this obtain ext where
    "symbol_named s1 x (c_str t)" and "s1 = ?s0\<lparr>symbols := symbols ?s0 @ ext\<rparr>" by blast
  ultimately show ?thesis using that[of x s1] by auto
qed

lemma eat_token:
  assumes "token t" and "list_all isspace w"
  shows "\<exists>c. eat_whitespace_peekchar (w @ t @ r) = (Some c, t @ r) \<and> c \<noteq> CHR '')'' \<and> c \<noteq> CHR '']''"
proof -
  from assms(1) obtain c body where t: "t = c # body"
    and c: "token_start c \<or> 128 \<le> (of_char c :: nat)"
    using token_Cons[of t] by auto
  from token_lead_facts[OF c] eat_spaces[OF assms(2), of "t @ r"] show ?thesis
    by (simp add: t eat_stop)
qed

lemma symbol_not_dot:
  assumes x: "symbol_named s1 x name" and ne: "name \<noteq> ''.''"
  shows "x \<noteq> fst (SYMBOL_DOT s1)"
proof
  assume eq: "x = fst (SYMBOL_DOT s1)"
  obtain dot s2 where d: "SYMBOL_DOT s1 = (dot, s2)" by fastforce
  from d have y: "string_2_symbol ''.'' s1 = (dot, s2)" by (simp add: SYMBOL_DOT_def)
  from string_2_symbol_result(1)[OF y] have "symbol_named s2 dot ''.''"
    by (simp add: c_str_def fits_block_short)
  moreover from grows_from_symbol_named[OF grows_from_string_2_symbol[OF y, of 0] x]
  have "symbol_named s2 x name" .
  ultimately show False using eq d ne symbol_named_inject by fastforce
qed

lemma SYMBOL_DOT_state:
  obtains ext where "snd (SYMBOL_DOT s) = s\<lparr>symbols := symbols s @ ext\<rparr>"
proof -
  obtain dot s2 where d: "string_2_symbol ''.'' s = (dot, s2)" by fastforce
  from string_2_symbol_result(2)[OF d] d that show ?thesis by (auto simp: SYMBOL_DOT_def)
qed

text \<open>One turn of the loop on a symbol token, as the first element and as a later one.\<close>

lemma READ_list_first_symbol:
  assumes tok: "symbol_token t" and w: "list_all isspace w"
    and r: "macro_terminating_charQ (PEEKC r)" and nil: "NIL_SYMBOL cfg = None"
    and tm: "tm = CHR '')'' \<or> tm = CHR '']''"
  obtains x s2 where
    "\<And>n. READ_list cfg (Suc (Suc n)) tm l NIL (s\<lparr>stream := w @ t @ r\<rparr>) =
       READ_list cfg (Suc n) tm (PairPtr (length (pairs s))) (PairPtr (length (pairs s))) s2"
    and "symbol_named s2 x (c_str t)" and "stream s2 = r"
    and "pairs s2 = pairs s @ [(x, NIL)]"
    and "strings s2 = strings s @ [t]" and "prefix (symbols s) (symbols s2)"
proof -
  from tok have tk: "token t" and nd: "c_str t \<noteq> ''.''" by (simp_all add: symbol_token_def)
  from eat_token[OF tk w, of r] tm obtain c where
    e: "eat_whitespace_peekchar (w @ t @ r) = (Some c, t @ r)" and c: "c \<noteq> tm" by auto
  obtain x s1 where rd: "\<And>n. READ cfg (Suc n) (s\<lparr>stream := t @ r\<rparr>) = Return x s1"
    and x: "symbol_named s1 x (c_str t)" and s1: "stream s1 = r" "pairs s1 = pairs s"
      "strings s1 = strings s @ [t]" "prefix (symbols s) (symbols s1)"
    by (rule READ_symbol_token[OF tok r nil, where s=s]) blast
  have rd': "READ cfg (Suc n) (s\<lparr>stream := w @ t @ r\<rparr>) = Return x s1" for n
    using rd[of n] READ_spaces[OF w, where cfg=cfg and n="Suc n" and s=s and cs="t @ r"]
    by simp
  obtain ext where d: "snd (SYMBOL_DOT s1) = s1\<lparr>symbols := symbols s1 @ ext\<rparr>"
    by (rule SYMBOL_DOT_state)
  let ?s2 = "(snd (SYMBOL_DOT s1))\<lparr>pairs := pairs s1 @ [(x, NIL)]\<rparr>"
  have "READ_list cfg (Suc (Suc n)) tm l NIL (s\<lparr>stream := w @ t @ r\<rparr>) =
       READ_list cfg (Suc n) tm (PairPtr (length (pairs s))) (PairPtr (length (pairs s))) ?s2" for n
    using READ_list_element(1)[OF e c rd' symbol_not_dot[OF x nd]] s1 by simp
  moreover have "symbol_named ?s2 x (c_str t)"
    using x by (simp add: d symbol_named_def find_symbol_append)
  moreover have "prefix (symbols s) (symbols ?s2)"
    using s1(4) by (simp add: d)
  ultimately show ?thesis using that[of ?s2 x] s1 by (simp add: d)
qed

lemma READ_list_next_symbol:
  assumes tok: "symbol_token t" and w: "list_all isspace w"
    and r: "macro_terminating_charQ (PEEKC r)" and nil: "NIL_SYMBOL cfg = None"
    and tm: "tm = CHR '')'' \<or> tm = CHR '']''"
    and i: "i < length (pairs s)"
  obtains x s2 where
    "\<And>n. READ_list cfg (Suc (Suc n)) tm l (PairPtr i) (s\<lparr>stream := w @ t @ r\<rparr>) =
       READ_list cfg (Suc n) tm l (PairPtr (length (pairs s))) s2"
    and "symbol_named s2 x (c_str t)" and "stream s2 = r"
    and "pairs s2 = (pairs s)[i := (fst (pairs s ! i), PairPtr (length (pairs s)))] @ [(x, NIL)]"
    and "strings s2 = strings s @ [t]" and "prefix (symbols s) (symbols s2)"
proof -
  from tok have tk: "token t" and nd: "c_str t \<noteq> ''.''" by (simp_all add: symbol_token_def)
  from eat_token[OF tk w, of r] tm obtain c where
    e: "eat_whitespace_peekchar (w @ t @ r) = (Some c, t @ r)" and c: "c \<noteq> tm" by auto
  obtain x s1 where rd: "\<And>n. READ cfg (Suc n) (s\<lparr>stream := t @ r\<rparr>) = Return x s1"
    and x: "symbol_named s1 x (c_str t)" and s1: "stream s1 = r" "pairs s1 = pairs s"
      "strings s1 = strings s @ [t]" "prefix (symbols s) (symbols s1)"
    by (rule READ_symbol_token[OF tok r nil, where s=s]) blast
  have rd': "READ cfg (Suc n) (s\<lparr>stream := w @ t @ r\<rparr>) = Return x s1" for n
    using rd[of n] READ_spaces[OF w, where cfg=cfg and n="Suc n" and s=s and cs="t @ r"]
    by simp
  obtain ext where d: "snd (SYMBOL_DOT s1) = s1\<lparr>symbols := symbols s1 @ ext\<rparr>"
    by (rule SYMBOL_DOT_state)
  let ?s2 = "(snd (SYMBOL_DOT s1))\<lparr>pairs := (pairs s1 @ [(x, NIL)])
                [i := (fst (pairs s1 ! i), PairPtr (length (pairs s1)))]\<rparr>"
  from i s1 have i1: "i < length (pairs s1)" by simp
  have "READ_list cfg (Suc (Suc n)) tm l (PairPtr i) (s\<lparr>stream := w @ t @ r\<rparr>) =
       READ_list cfg (Suc n) tm l (PairPtr (length (pairs s))) ?s2" for n
    using READ_list_element(2)[OF e c rd' symbol_not_dot[OF x nd] refl i1] s1 by simp
  moreover have "symbol_named ?s2 x (c_str t)"
    using x by (simp add: d symbol_named_def find_symbol_append)
  moreover have "prefix (symbols s) (symbols ?s2)"
    using s1(4) by (simp add: d)
  moreover have "pairs ?s2 = (pairs s)[i := (fst (pairs s ! i), PairPtr (length (pairs s)))] @ [(x, NIL)]"
    using i s1 by (simp add: d list_update_append)
  ultimately show ?thesis using that[of ?s2 x] s1 by (simp add: d)
qed

lemma terminating_space: "list_all isspace w \<Longrightarrow> w \<noteq> [] \<Longrightarrow> macro_terminating_charQ (PEEKC (w @ r))"
  by (cases w) (simp_all add: macro_terminating_charQ.simps)

lemma terminating_close: "list_all isspace w \<Longrightarrow> macro_terminating_charQ (PEEKC (w @ CHR '')'' # r))"
  by (cases w) (simp_all add: macro_terminating_charQ.simps)

lemma READ_three_symbols:
  assumes a: "symbol_token a" and b: "symbol_token b" and c: "symbol_token c"
    and w0: "list_all isspace w0" and w1: "list_all isspace w1" "w1 \<noteq> []"
    and w2: "list_all isspace w2" "w2 \<noteq> []" and w3: "list_all isspace w3"
    and nil: "NIL_SYMBOL cfg = None"
  shows "\<exists>xa xb xc s'.
      (\<forall>n. READ cfg (n + 5) (s\<lparr>stream := ''('' @ w0 @ a @ w1 @ b @ w2 @ c @ w3 @ '')'' @ rest\<rparr>) =
        Return (PairPtr (length (pairs s))) s')
      \<and> pairs s' = pairs s @ [(xa, PairPtr (length (pairs s) + 1)),
                                (xb, PairPtr (length (pairs s) + 2)), (xc, NIL)]
      \<and> symbol_named s' xa (c_str a) \<and> symbol_named s' xb (c_str b)
      \<and> symbol_named s' xc (c_str c)
      \<and> stream s' = rest \<and> strings s' = strings s @ [a, b, c]"
proof -
  let ?p = "length (pairs s)"
  let ?r3 = "w3 @ CHR '')'' # rest"
  let ?r2 = "w2 @ c @ ?r3"
  let ?r1 = "w1 @ b @ ?r2"
  have tm: "CHR '')'' = CHR '')'' \<or> CHR '')'' = CHR '']''" by simp
  have t1: "macro_terminating_charQ (PEEKC ?r1)" by (rule terminating_space[OF w1])
  have t2: "macro_terminating_charQ (PEEKC ?r2)" by (rule terminating_space[OF w2])
  have t3: "macro_terminating_charQ (PEEKC ?r3)" by (rule terminating_close[OF w3])
  obtain xa s1 where
    l1: "\<And>n. READ_list cfg (Suc (Suc n)) (CHR '')'') NIL NIL (s\<lparr>stream := w0 @ a @ ?r1\<rparr>) =
       READ_list cfg (Suc n) (CHR '')'') (PairPtr ?p) (PairPtr ?p) s1"
    and xa: "symbol_named s1 xa (c_str a)" and st1: "stream s1 = ?r1"
    and p1: "pairs s1 = pairs s @ [(xa, NIL)]"
    and g1: "strings s1 = strings s @ [a]" "prefix (symbols s) (symbols s1)"
    by (rule READ_list_first_symbol[OF a w0 t1 nil tm, where s=s and l=NIL]) blast
  have i1: "?p < length (pairs s1)" by (simp add: p1)
  obtain xb s2 where
    l2: "\<And>n. READ_list cfg (Suc (Suc n)) (CHR '')'') (PairPtr ?p) (PairPtr ?p)
           (s1\<lparr>stream := w1 @ b @ ?r2\<rparr>) =
       READ_list cfg (Suc n) (CHR '')'') (PairPtr ?p) (PairPtr (length (pairs s1))) s2"
    and xb: "symbol_named s2 xb (c_str b)" and st2: "stream s2 = ?r2"
    and p2: "pairs s2 = (pairs s1)[?p := (fst (pairs s1 ! ?p), PairPtr (length (pairs s1)))] @ [(xb, NIL)]"
    and g2: "strings s2 = strings s1 @ [b]" "prefix (symbols s1) (symbols s2)"
    by (rule READ_list_next_symbol[OF b w1(1) t2 nil tm i1, where l="PairPtr ?p"]) blast
  have p2': "pairs s2 = pairs s @ [(xa, PairPtr (?p + 1)), (xb, NIL)]"
    by (simp add: p2 p1)
  have i2: "?p + 1 < length (pairs s2)" by (simp add: p2')
  obtain xc s3 where
    l3: "\<And>n. READ_list cfg (Suc (Suc n)) (CHR '')'') (PairPtr ?p) (PairPtr (?p + 1))
           (s2\<lparr>stream := w2 @ c @ ?r3\<rparr>) =
       READ_list cfg (Suc n) (CHR '')'') (PairPtr ?p) (PairPtr (length (pairs s2))) s3"
    and xc: "symbol_named s3 xc (c_str c)" and st3: "stream s3 = ?r3"
    and p3: "pairs s3 = (pairs s2)[?p + 1 := (fst (pairs s2 ! (?p + 1)), PairPtr (length (pairs s2)))] @ [(xc, NIL)]"
    and g3: "strings s3 = strings s2 @ [c]" "prefix (symbols s2) (symbols s3)"
    by (rule READ_list_next_symbol[OF c w2(1) t3 nil tm i2, where l="PairPtr ?p"]) blast
  have p3': "pairs s3 = pairs s @ [(xa, PairPtr (?p + 1)), (xb, PairPtr (?p + 2)), (xc, NIL)]"
    by (simp add: p3 p2' list_update_append nth_append)
  have e1: "s1\<lparr>stream := ?r1\<rparr> = s1" using st1 by simp
  have e2: "s2\<lparr>stream := ?r2\<rparr> = s2" using st2 by simp
  have e3: "s3\<lparr>stream := ?r3\<rparr> = s3" using st3 by simp
  have main:
    "READ cfg (n + 5) (s\<lparr>stream := ''('' @ w0 @ a @ w1 @ b @ w2 @ c @ w3 @ '')'' @ rest\<rparr>) =
       Return (PairPtr ?p) (s3\<lparr>stream := rest\<rparr>)" for n
  proof -
  have f: "n + 5 = Suc (Suc (Suc (Suc (Suc n))))" by simp
  have "READ cfg (n + 5) (s\<lparr>stream := ''('' @ w0 @ a @ w1 @ b @ w2 @ c @ w3 @ '')'' @ rest\<rparr>) =
        READ_list cfg (Suc (Suc (Suc (Suc n)))) (CHR '')'') NIL NIL (s\<lparr>stream := w0 @ a @ ?r1\<rparr>)"
    unfolding f by (simp add: READ_open)
  also note l1[of "Suc (Suc n)"]
  also have "READ_list cfg (Suc (Suc (Suc n))) (CHR '')'') (PairPtr ?p) (PairPtr ?p) s1 =
        READ_list cfg (Suc (Suc (Suc n))) (CHR '')'') (PairPtr ?p) (PairPtr ?p)
           (s1\<lparr>stream := w1 @ b @ ?r2\<rparr>)"
    by (simp add: e1)
  also note l2[of "Suc n"]
  also have "READ_list cfg (Suc (Suc n)) (CHR '')'') (PairPtr ?p) (PairPtr (length (pairs s1))) s2 =
        READ_list cfg (Suc (Suc n)) (CHR '')'') (PairPtr ?p) (PairPtr (?p + 1))
           (s2\<lparr>stream := w2 @ c @ ?r3\<rparr>)"
    by (simp add: e2 p1)
  also note l3[of n]
  also have "READ_list cfg (Suc n) (CHR '')'') (PairPtr ?p) (PairPtr (length (pairs s2))) s3 =
        READ_list cfg (Suc n) (CHR '')'') (PairPtr ?p) (PairPtr (length (pairs s2)))
          (s3\<lparr>stream := w3 @ CHR '')'' # rest\<rparr>)"
    by (simp add: e3)
  also have "\<dots> = Return (PairPtr ?p) (s3\<lparr>stream := rest\<rparr>)"
    by (simp add: READ_list_spaces[OF w3] READ_list_close)
  finally show ?thesis .
  qed
  have sa: "symbol_named (s3\<lparr>stream := rest\<rparr>) xa (c_str a)"
    using xa g2(2) g3(2) by (auto simp: symbol_named_def prefix_def find_symbol_append)
  have sb: "symbol_named (s3\<lparr>stream := rest\<rparr>) xb (c_str b)"
    using xb g3(2) by (auto simp: symbol_named_def prefix_def find_symbol_append)
  have sc: "symbol_named (s3\<lparr>stream := rest\<rparr>) xc (c_str c)"
    using xc by (simp add: symbol_named_def)
  show ?thesis
    using main p3' sa sb sc g1(1) g2(1) g3(1) by (intro exI[of _ xa] exI[of _ xb] exI[of _ xc]
        exI[of _ "s3\<lparr>stream := rest\<rparr>"]) simp
qed

text \<open>
  A list of three symbols: for an input that is \<^verbatim>\<open>(\<close>, three symbol tokens
  separated by white space, and \<^verbatim>\<open>)\<close>, one call returns the first of three new pairs;
  each holds the symbol of its token, in the order of the input, and the pair after it,
  and the last holds \<open>NIL\<close>. With \<^verbatim>\<open>NIL_SYMBOL\<close> undefined, as in the test host, and for
  tokens whose names the host copies whole; the result is the same with any fuel from 5
  on.
\<close>

lemma list_of_three_symbols:
  assumes "symbol_token a" and "symbol_token b" and "symbol_token c"
    and "list_all isspace w0" and "list_all isspace w1" "w1 \<noteq> []"
    and "list_all isspace w2" "w2 \<noteq> []" and "list_all isspace w3"
    and "NIL_SYMBOL cfg = None"
  shows "\<exists>xa xb xc s'.
      test_read cfg (s\<lparr>stream := ''('' @ w0 @ a @ w1 @ b @ w2 @ c @ w3 @ '')'' @ rest\<rparr>) =
        Return (PairPtr (length (pairs s))) s'
      \<and> (\<forall>n. READ cfg (n + 5)
               (s\<lparr>stream := ''('' @ w0 @ a @ w1 @ b @ w2 @ c @ w3 @ '')'' @ rest\<rparr>) =
             Return (PairPtr (length (pairs s))) s')
      \<and> pairs s' = pairs s @ [(xa, PairPtr (length (pairs s) + 1)),
                                (xb, PairPtr (length (pairs s) + 2)), (xc, NIL)]
      \<and> symbol_named s' xa (c_str a) \<and> symbol_named s' xb (c_str b)
      \<and> symbol_named s' xc (c_str c)
      \<and> stream s' = rest \<and> strings s' = strings s @ [a, b, c]"
proof -
  let ?inp = "''('' @ w0 @ a @ w1 @ b @ w2 @ c @ w3 @ '')'' @ rest"
  from assms(6,8) have "5 \<le> 2 * length ?inp + 1" by (cases w1; cases w2) simp_all
  then have f: "2 * length ?inp + 1 = (2 * length ?inp - 4) + 5" by simp
  from READ_three_symbols[OF assms, where s=s and rest=rest] obtain xa xb xc s' where
    r: "\<And>n. READ cfg (n + 5) (s\<lparr>stream := ?inp\<rparr>) = Return (PairPtr (length (pairs s))) s'"
    and p: "pairs s' = pairs s @ [(xa, PairPtr (length (pairs s) + 1)),
                                (xb, PairPtr (length (pairs s) + 2)), (xc, NIL)]"
      "symbol_named s' xa (c_str a)" "symbol_named s' xb (c_str b)" "symbol_named s' xc (c_str c)"
      "stream s' = rest" "strings s' = strings s @ [a, b, c]"
    by blast
  have st: "stream (s\<lparr>stream := ?inp\<rparr>) = ?inp" by simp
  have t: "test_read cfg (s\<lparr>stream := ?inp\<rparr>) = Return (PairPtr (length (pairs s))) s'"
    unfolding test_read_def st f by (rule r)
  from t r p show ?thesis by blast
qed

lemma list_of_three_symbols_example:
  "\<exists>xa xb xc s'.
      test_read (test_host True True) (initial ''(a b c)'') = Return (PairPtr 0) s'
      \<and> pairs s' = [(xa, PairPtr 1), (xb, PairPtr 2), (xc, NIL)]
      \<and> symbol_named s' xa ''a'' \<and> symbol_named s' xb ''b'' \<and> symbol_named s' xc ''c''
      \<and> stream s' = [] \<and> strings s' = [''a'', ''b'', ''c'']"
proof -
  have tok: "symbol_token ''a''" "symbol_token ''b''" "symbol_token ''c''"
    by code_simp+
  have w: "list_all isspace []" "list_all isspace '' ''" "'' '' \<noteq> []"
    by (simp_all add: isspace_def)
  have nil: "NIL_SYMBOL (test_host True True) = None" by (simp add: test_host_def)
  from list_of_three_symbols[OF tok w(1) w(2,3) w(2,3) w(1) nil,
      where s="initial []" and rest="[]"]
  show ?thesis by (auto simp: initial_def c_str_def numeral_2_eq_2)
qed

text \<open>
  C1. A list \<^verbatim>\<open>(a b c)\<close> of symbol tokens is to be read as the list of the symbols of
  \<open>a\<close>, \<open>b\<close> and \<open>c\<close>. The host returns it for \<^verbatim>\<open>(a b a)\<close>: three pairs in the order
  of the input, the last ending in \<open>NIL\<close>, the first and the third with the one symbol
  named \<^verbatim>\<open>a\<close>. With a token of 40 bytes in the place of \<^verbatim>\<open>a\<close> the first and the third
  element are two symbols and the table has the name of neither: \<^verbatim>\<open>string_2_symbol\<close>
  copies a new name with \<^verbatim>\<open>strcpy\<close> into a block of \<^verbatim>\<open>strlen(s)\<close> bytes, one short of
  the NUL, and the allocation of the next pair overwrites the NUL.
\<close>

theorem list_of_long_symbols:
  "test_read (test_host ltr sc) (initial ''(a b a)'') =
     Return (PairPtr 0)
       \<lparr>stream = [],
          pairs = [(SymPtr 1, PairPtr 1), (SymPtr 2, PairPtr 2), (SymPtr 1, NIL)],
          strings = [''a'', ''b'', ''a''], symbols = [''.'', ''a'', ''b'']\<rparr>
   \<and> test_read (test_host ltr sc)
        (initial (''(aaaaaaaaaaaaaaaaaaaaaaaaaaaaaaaaaaaaaaaa b ''
                  @ ''aaaaaaaaaaaaaaaaaaaaaaaaaaaaaaaaaaaaaaaa)'')) =
     Return (PairPtr 0)
       \<lparr>stream = [],
          pairs = [(SymPtr 1, PairPtr 1), (SymPtr 2, PairPtr 2), (SymPtr 3, NIL)],
          strings = [''aaaaaaaaaaaaaaaaaaaaaaaaaaaaaaaaaaaaaaaa'', ''b'',
                     ''aaaaaaaaaaaaaaaaaaaaaaaaaaaaaaaaaaaaaaaa''],
          symbols = [''.'', ''aaaaaaaaaaaaaaaaaaaaaaaaaaaaaaaaaaaaaaaa!'', ''b'',
                     ''aaaaaaaaaaaaaaaaaaaaaaaaaaaaaaaaaaaaaaaa!'']\<rparr>"
  by code_simp

subsection \<open>Dotted pairs\<close>


lemma c_str_dot [simp]: "c_str ''.'' = ''.''"
  by (simp add: c_str_def)



lemma symbol_named_fields:
  "symbol_named (s\<lparr>stream := cs\<rparr>) v name = symbol_named s v name"
  "symbol_named (s\<lparr>pairs := ps\<rparr>) v name = symbol_named s v name"
  "symbol_named (s\<lparr>strings := ss\<rparr>) v name = symbol_named s v name"
  by (simp_all add: symbol_named_def)






subsection \<open>Quote forms\<close>

lemma READ_quote_forms:
  "READ cfg (Suc n) (s\<lparr>stream := CHR 0x27 # r\<rparr>) =
     quote_form cfg ''quote'' (READ cfg n) (s\<lparr>stream := r\<rparr>)"
  "READ cfg (Suc n) (s\<lparr>stream := CHR 0x60 # r\<rparr>) =
     quote_form cfg ''quasiquote'' (READ cfg n) (s\<lparr>stream := r\<rparr>)"
  "PEEKC r \<noteq> Some (CHR ''@'') \<Longrightarrow> READ cfg (Suc n) (s\<lparr>stream := CHR '','' # r\<rparr>) =
     quote_form cfg ''unquote'' (READ cfg n) (s\<lparr>stream := r\<rparr>)"
  "READ cfg (Suc n) (s\<lparr>stream := CHR '','' # CHR ''@'' # r\<rparr>) =
     quote_form cfg ''unquote_splicing'' (READ cfg n) (s\<lparr>stream := r\<rparr>)"
  by (simp_all add: READ.simps(2) eat_stop isspace_def)

text \<open>
  The value of a quote form: two new pairs, the first with the datum and \<open>NIL\<close>, the
  second with the symbol of the name and the first; the second is returned. The datum
  is what the nested call returns, made after the symbol is looked up or before.
\<close>

lemma quote_form_list:
  assumes rd: "rd (if args_left_to_right cfg then snd (SYMBOL name s) else s) = Return x s1"
    and grows: "\<And>s v s'. rd s = Return v s' \<Longrightarrow> grows_from (length (pairs s)) s s'"
    and name: "c_str name = name" and fit: "fits_block name"
  shows "\<exists>q s'. quote_form cfg name rd s = Return (PairPtr (Suc (length (pairs s1)))) s'
     \<and> pairs s' = pairs s1 @ [(x, NIL), (q, PairPtr (length (pairs s1)))]
     \<and> symbol_named s' q name \<and> stream s' = stream s1 \<and> strings s' = strings s1"
proof (cases "args_left_to_right cfg")
  case True
  obtain q s0 where y: "string_2_symbol name s = (q, s0)" by fastforce
  from string_2_symbol_result(1)[OF y] name fit have q: "symbol_named s0 q name" by simp
  from rd True y have r: "rd s0 = Return x s1" by (simp add: SYMBOL_def)
  from grows_from_symbol_named[OF grows[OF r] q] have q1: "symbol_named s1 q name" .
  let ?s' = "s1\<lparr>pairs := pairs s1 @ [(x, NIL), (q, PairPtr (length (pairs s1)))]\<rparr>"
  have "quote_form cfg name rd s = Return (PairPtr (Suc (length (pairs s1)))) ?s'"
    using True y r by (simp add: quote_form_def SYMBOL_def cons_def)
  moreover have "symbol_named ?s' q name" using q1 by (simp add: symbol_named_fields)
  ultimately show ?thesis by (intro exI[of _ q] exI[of _ ?s']) simp
next
  case False
  with rd have r: "rd s = Return x s1" by simp
  let ?s2 = "s1\<lparr>pairs := pairs s1 @ [(x, NIL)]\<rparr>"
  obtain q s3 where y: "string_2_symbol name ?s2 = (q, s3)" by fastforce
  from string_2_symbol_result[OF y] name fit obtain ext where q: "symbol_named s3 q name"
    and s3: "s3 = ?s2\<lparr>symbols := symbols ?s2 @ ext\<rparr>" by auto
  let ?s' = "s3\<lparr>pairs := pairs s3 @ [(q, PairPtr (length (pairs s1)))]\<rparr>"
  have "quote_form cfg name rd s = Return (PairPtr (Suc (length (pairs s1)))) ?s'"
    using False y r s3 by (simp add: quote_form_def SYMBOL_def cons_def)
  moreover have "symbol_named ?s' q name" using q by (simp add: symbol_named_fields)
  moreover have "pairs ?s' = pairs s1 @ [(x, NIL), (q, PairPtr (length (pairs s1)))]"
    by (simp add: s3)
  ultimately show ?thesis using s3 by (intro exI[of _ q] exI[of _ ?s']) simp
qed

text \<open>
  Reading \<^verbatim>\<open>'\<close>, \<^verbatim>\<open>`\<close>, \<^verbatim>\<open>,\<close> or \<^verbatim>\<open>,@\<close> and a datum: the list of the symbol
  \<open>quote\<close>, \<open>quasiquote\<close>, \<open>unquote\<close> or \<open>unquote_splicing\<close> and the value \<open>x\<close> read for
  the datum.
\<close>

lemma quote_forms:
  assumes "(p, name) \<in> {([CHR 0x27], ''quote''), ([CHR 0x60], ''quasiquote''),
                          ('','', ''unquote''), ('',@'', ''unquote_splicing'')}"
    and "p = '','' \<Longrightarrow> PEEKC r \<noteq> Some (CHR ''@'')"
    and "READ cfg n (if args_left_to_right cfg then snd (SYMBOL name (s\<lparr>stream := r\<rparr>))
                     else s\<lparr>stream := r\<rparr>) = Return x s1"
  shows "\<exists>q s'. READ cfg (Suc n) (s\<lparr>stream := p @ r\<rparr>) =
                   Return (PairPtr (Suc (length (pairs s1)))) s'
     \<and> pairs s' = pairs s1 @ [(x, NIL), (q, PairPtr (length (pairs s1)))]
     \<and> symbol_named s' q name \<and> stream s' = stream s1 \<and> strings s' = strings s1"
proof -
  from assms(1) have name: "c_str name = name" by (auto simp: c_str_def)
  from assms(1) have fit: "fits_block name" by (auto simp: fits_block_short)
  from assms(1,2) have "READ cfg (Suc n) (s\<lparr>stream := p @ r\<rparr>) =
      quote_form cfg name (READ cfg n) (s\<lparr>stream := r\<rparr>)"
    by (auto simp: READ_quote_forms)
  with quote_form_list[where rd="READ cfg n", OF assms(3) READ_grows name fit] show ?thesis
    by simp
qed

text \<open>The same in a call from outside.\<close>

lemma test_read_quote_forms:
  assumes "(p, name) \<in> {([CHR 0x27], ''quote''), ([CHR 0x60], ''quasiquote''),
                          ('','', ''unquote''), ('',@'', ''unquote_splicing'')}"
    and "p = '','' \<Longrightarrow> PEEKC r \<noteq> Some (CHR ''@'')"
    and "test_read cfg (if args_left_to_right cfg then snd (SYMBOL name (s\<lparr>stream := r\<rparr>))
                     else s\<lparr>stream := r\<rparr>) = Return x s1"
  shows "\<exists>q s'. test_read cfg (s\<lparr>stream := p @ r\<rparr>) =
                   Return (PairPtr (Suc (length (pairs s1)))) s'
     \<and> pairs s' = pairs s1 @ [(x, NIL), (q, PairPtr (length (pairs s1)))]
     \<and> symbol_named s' q name \<and> stream s' = stream s1 \<and> strings s' = strings s1"
proof -
  from test_read_Return[OF assms(3)] obtain n where
    "READ cfg n (if args_left_to_right cfg then snd (SYMBOL name (s\<lparr>stream := r\<rparr>))
                     else s\<lparr>stream := r\<rparr>) = Return x s1" by blast
  from quote_forms[OF assms(1,2) this] obtain q s' where
    r: "READ cfg (Suc n) (s\<lparr>stream := p @ r\<rparr>) = Return (PairPtr (Suc (length (pairs s1)))) s'"
    and p: "pairs s' = pairs s1 @ [(x, NIL), (q, PairPtr (length (pairs s1)))]"
      "symbol_named s' q name" "stream s' = stream s1" "strings s' = strings s1"
    by blast
  from r have "READ cfg (Suc n) (s\<lparr>stream := p @ r\<rparr>) \<noteq> Out_of_fuel" by simp
  from test_read_fuel[OF this] r p show ?thesis by simp
qed

text \<open>
  C5. \<^verbatim>\<open>SYMBOL(unquote_splicing)\<close> is \<^verbatim>\<open>string_2_symbol("unquote_splicing")\<close> in the test
  host, which does not put \<^verbatim>\<open>-\<close> for \<^verbatim>\<open>_\<close> as the reader's documentation of the macro
  says: the list read from \<^verbatim>\<open>,@x\<close> starts with the symbol of the name
  \<^verbatim>\<open>unquote_splicing\<close>, and no symbol \<^verbatim>\<open>unquote-splicing\<close> is in the table.
\<close>

theorem unquote_splicing_name:
  "test_read (test_host True sc) (initial '',@x'') =
     Return (PairPtr 1)
       \<lparr>stream = [], pairs = [(SymPtr 2, NIL), (SymPtr 1, PairPtr 0)], strings = [''x''],
          symbols = [''.'', ''unquote_splicing'', ''x'']\<rparr>
   \<and> test_read (test_host False sc) (initial '',@x'') =
     Return (PairPtr 1)
       \<lparr>stream = [], pairs = [(SymPtr 1, NIL), (SymPtr 2, PairPtr 0)], strings = [''x''],
          symbols = [''.'', ''x'', ''unquote_splicing'']\<rparr>"
  by code_simp

end
